theory Spec2Isabelle
  imports Main
begin

section \<open>Data model\<close>

text \<open>
  The repository holds two engines, \<^verbatim>\<open>NW\<close> (src/nw.py, global alignment) and
  \<^verbatim>\<open>SW\<close> (src/sw.py, local alignment), over the value classes \<^verbatim>\<open>Config\<close>
  (src/config.py) and \<^verbatim>\<open>Score\<close> (src/score.py). Python exceptions are values of
  \<open>error\<close>; a method that can raise returns \<open>error + 'a\<close>.
\<close>

datatype error = IndexError | ValueError | AttributeError | TypeError | UnboundLocalError

record Config =
  match :: int
  mismatch :: int
  gap :: int
  twogaps :: int

definition default_config :: Config where
  "default_config = \<lparr>match = 5, mismatch = - 2, gap = - 4, twogaps = 0\<rparr>"

text \<open>
  \<^verbatim>\<open>Score(coordinate, score, move=None)\<close>: \<open>coordinate\<close> is the originating
  (predecessor) coordinate, which the engines set to a list or to \<^verbatim>\<open>None\<close>.
\<close>

record Score =
  coordinate :: "int list option"
  score :: int
  move :: "string option"

definition mkScore :: "int list option \<Rightarrow> int \<Rightarrow> Score" where
  "mkScore c v = \<lparr>coordinate = c, score = v, move = None\<rparr>"

text \<open>
  The matrix is a nested Python list of depth \<open>N\<close> whose innermost entries are
  \<^verbatim>\<open>None\<close> or a \<^verbatim>\<open>Score\<close>.
\<close>

datatype matrix = Cell "Score option" | Rows "matrix list"

subsection \<open>Python indexing\<close>

text \<open>A Python index \<open>i\<close> into a sequence of length \<open>n\<close>: negative indices count from the end.\<close>

definition py_index :: "nat \<Rightarrow> int \<Rightarrow> nat option" where
  "py_index n i =
     (if 0 \<le> i \<and> i < int n then Some (nat i)
      else if - int n \<le> i \<and> i < 0 then Some (nat (int n + i))
      else None)"

definition getitem :: "'a list \<Rightarrow> int \<Rightarrow> error + 'a" where
  "getitem xs i = (case py_index (length xs) i of None \<Rightarrow> Inl IndexError | Some j \<Rightarrow> Inr (xs ! j))"

section \<open>Methods shared by both engines\<close>

text \<open>
  \<^verbatim>\<open>increase\<close>, \<^verbatim>\<open>generatebasepairs\<close>, \<^verbatim>\<open>generatemoves\<close>, \<^verbatim>\<open>generatecoordinates\<close>,
  \<^verbatim>\<open>getallpairs\<close>, \<^verbatim>\<open>scorePair\<close>, \<^verbatim>\<open>retrievematrixelement\<close>, \<^verbatim>\<open>enterelement\<close>
  and \<^verbatim>\<open>initializeMatrix\<close> have the same body in src/nw.py and src/sw.py; each is
  embedded once.
\<close>

subsection \<open>increase\<close>

text \<open>
  \<^verbatim>\<open>self.counter[0] += 1\<close>, then for \<open>x\<close> in \<^verbatim>\<open>range(len(self.sequences) - 1)\<close>: when
  \<^verbatim>\<open>counter[x] == len(sequences[x]) + 1\<close>, reset it and carry into \<open>x + 1\<close>. The counter
  has as many entries as there are sequences, so every index is in range.
\<close>

definition increase_at :: "string list \<Rightarrow> nat \<Rightarrow> int list \<Rightarrow> int list" where
  "increase_at seqs x cnt =
     (if cnt ! x = int (length (seqs ! x)) + 1
      then (cnt[x := 0])[Suc x := cnt ! Suc x + 1]
      else cnt)"

definition increase :: "string list \<Rightarrow> int list \<Rightarrow> int list" where
  "increase seqs cnt = fold (increase_at seqs) [0..<length seqs - 1] (cnt[0 := cnt ! 0 + 1])"

subsection \<open>generatebasepairs\<close>

fun basepairs_loop :: "string list \<Rightarrow> (int \<times> nat) list \<Rightarrow> error + string" where
  "basepairs_loop seqs [] = Inr []"
| "basepairs_loop seqs ((u, v) # rest) =
     (if u = 0 then
        (case basepairs_loop seqs rest of Inl e \<Rightarrow> Inl e | Inr bs \<Rightarrow> Inr (CHR ''_'' # bs))
      else
        (case getitem seqs (int v) of Inl e \<Rightarrow> Inl e | Inr s \<Rightarrow>
         (case getitem s (u - 1) of Inl e \<Rightarrow> Inl e | Inr c \<Rightarrow>
          (case basepairs_loop seqs rest of Inl e \<Rightarrow> Inl e | Inr bs \<Rightarrow> Inr (c # bs)))))"

definition generatebasepairs :: "string list \<Rightarrow> int list \<Rightarrow> error + string" where
  "generatebasepairs seqs x = basepairs_loop seqs (zip x [0..<length x])"

subsection \<open>generatemoves\<close>

fun moves_loop :: "string \<Rightarrow> string list \<Rightarrow> string list" where
  "moves_loop [] returnvalue = returnvalue"
| "moves_loop (c # cs) returnvalue =
     moves_loop cs
       (if c = CHR ''_'' then map (\<lambda>y. y @ ''_'') returnvalue
        else map (\<lambda>y. y @ [c]) returnvalue @ map (\<lambda>y. y @ ''_'') returnvalue)"

text \<open>
  \<^verbatim>\<open>x[0]\<close> raises IndexError on the empty string; \<^verbatim>\<open>list.remove\<close> deletes the first
  occurrence and raises ValueError when there is none.
\<close>

definition generatemoves :: "string \<Rightarrow> error + string list" where
  "generatemoves x =
     (case x of
        [] \<Rightarrow> Inl IndexError
      | c # cs \<Rightarrow>
          (let returnvalue = moves_loop cs (if c \<noteq> CHR ''_'' then [[c], ''_''] else [[c]]);
               allgaps = replicate (length x) CHR ''_''
           in if allgaps \<in> set returnvalue then Inr (remove1 allgaps returnvalue)
              else Inl ValueError))"

subsection \<open>generatecoordinates\<close>

definition generatecoordinates :: "string \<Rightarrow> int list \<Rightarrow> int list" where
  "generatecoordinates x y = map (\<lambda>(u, v). if u = CHR ''_'' then v else v - 1) (zip x y)"

subsection \<open>getallpairs and scorePair\<close>

text \<open>
  A pair is the two-character string \<^verbatim>\<open>x[u] + a\<close>; it is kept as a pair of characters,
  which \<^verbatim>\<open>scorePair\<close> reads as \<^verbatim>\<open>x[0]\<close> and \<^verbatim>\<open>x[1]\<close>.
\<close>

definition getallpairs :: "string \<Rightarrow> (char \<times> char) list" where
  "getallpairs x = concat (map (\<lambda>u. map (\<lambda>a. (x ! u, a)) (drop (Suc u) x)) [0..<length x - 1])"

definition scorePair :: "Config \<Rightarrow> char \<times> char \<Rightarrow> int" where
  "scorePair cfg x =
     (if fst x = snd x \<and> snd x = CHR ''_'' then twogaps cfg
      else if fst x = CHR ''_'' \<or> snd x = CHR ''_'' then gap cfg
      else if fst x = snd x then match cfg
      else mismatch cfg)"

definition movescore :: "Config \<Rightarrow> string \<Rightarrow> int" where
  "movescore cfg mv = sum_list (map (scorePair cfg) (getallpairs mv))"

subsection \<open>retrievematrixelement, enterelement, initializeMatrix\<close>

text \<open>Subscripting \<^verbatim>\<open>None\<close> or a \<^verbatim>\<open>Score\<close> raises TypeError.\<close>

fun retrievematrixelement :: "matrix \<Rightarrow> int list \<Rightarrow> error + matrix" where
  "retrievematrixelement m [] = Inr m"
| "retrievematrixelement (Rows ms) (u # us) =
     (case getitem ms u of Inl e \<Rightarrow> Inl e | Inr m' \<Rightarrow> retrievematrixelement m' us)"
| "retrievematrixelement (Cell v) (u # us) = Inl TypeError"

text \<open>The attribute reads \<^verbatim>\<open>.score\<close> and \<^verbatim>\<open>.coordinate\<close> of a retrieved element.\<close>

definition score_of :: "matrix \<Rightarrow> error + int" where
  "score_of m = (case m of Cell (Some s) \<Rightarrow> Inr (score s) | _ \<Rightarrow> Inl AttributeError)"

definition coordinate_of :: "matrix \<Rightarrow> error + int list option" where
  "coordinate_of m = (case m of Cell (Some s) \<Rightarrow> Inr (coordinate s) | _ \<Rightarrow> Inl AttributeError)"

text \<open>
  \<^verbatim>\<open>enterelement\<close> walks \<^verbatim>\<open>coordinate[:-1]\<close> and assigns at \<^verbatim>\<open>coordinate[-1]\<close>, which
  raises IndexError for the empty coordinate.
\<close>

fun enterelement :: "matrix \<Rightarrow> int list \<Rightarrow> Score \<Rightarrow> error + matrix" where
  "enterelement m [] v = Inl IndexError"
| "enterelement (Cell c) (u # us) v = Inl TypeError"
| "enterelement (Rows ms) [u] v =
     (case py_index (length ms) u of None \<Rightarrow> Inl IndexError
      | Some i \<Rightarrow> Inr (Rows (ms[i := Cell (Some v)])))"
| "enterelement (Rows ms) (u # u' # us) v =
     (case py_index (length ms) u of None \<Rightarrow> Inl IndexError
      | Some i \<Rightarrow>
          (case enterelement (ms ! i) (u' # us) v of Inl e \<Rightarrow> Inl e
           | Inr m' \<Rightarrow> Inr (Rows (ms[i := m']))))"

fun initializeMatrix :: "string list \<Rightarrow> error + matrix" where
  "initializeMatrix [] = Inl IndexError"
| "initializeMatrix [s] = Inr (Rows (replicate (length s + 1) (Cell None)))"
| "initializeMatrix (s # s' # ss) =
     (case initializeMatrix (s' # ss) of Inl e \<Rightarrow> Inl e
      | Inr m \<Rightarrow> Inr (Rows (replicate (length s + 1) m)))"

section \<open>The global engine (src/nw.py)\<close>

record NW =
  sequences :: "string list"
  config :: Config
  matrix :: matrix
  counter :: "int list"

text \<open>
  \<^verbatim>\<open>__init__\<close>: build the matrix, enter \<^verbatim>\<open>Score([0]*N, 0)\<close> at the all-zero coordinate,
  set the counter to \<^verbatim>\<open>[1] + [0]*(N-1)\<close>.
\<close>

definition zeros :: "nat \<Rightarrow> int list" where
  "zeros n = replicate n 0"

definition NW_init :: "string list \<Rightarrow> Config \<Rightarrow> error + NW" where
  "NW_init seqs cfg =
     (case initializeMatrix seqs of Inl e \<Rightarrow> Inl e
      | Inr m \<Rightarrow>
          (case enterelement m (zeros (length seqs)) (mkScore (Some (zeros (length seqs))) 0) of
             Inl e \<Rightarrow> Inl e
           | Inr m' \<Rightarrow>
               Inr \<lparr>sequences = seqs, config = cfg, matrix = m',
                    counter = 1 # zeros (length seqs - 1)\<rparr>))"

text \<open>
  The candidate score of one move, as the body of the loop over the moves computes it:
  the origin coordinate of the move, the score stored there, and the sum of the scores of
  all pairs of the move.
\<close>

definition newscore :: "Config \<Rightarrow> matrix \<Rightarrow> int list \<Rightarrow> string \<Rightarrow> error + int" where
  "newscore cfg m cnt mv =
     (case retrievematrixelement m (generatecoordinates mv cnt) of Inl e \<Rightarrow> Inl e
      | Inr el \<Rightarrow>
          (case score_of el of Inl e \<Rightarrow> Inl e
           | Inr sc \<Rightarrow> Inr (sc + movescore cfg mv)))"

text \<open>
  The loop over the moves of one coordinate, on the pair \<open>(maxscore, bestmove)\<close>. The
  local engine runs the same loop from another start value and also tracks its best score.
\<close>

fun NW_moves :: "Config \<Rightarrow> matrix \<Rightarrow> int list \<Rightarrow> string list \<Rightarrow> int \<times> int list option
    \<Rightarrow> error + (int \<times> int list option)" where
  "NW_moves cfg m cnt [] acc = Inr acc"
| "NW_moves cfg m cnt (mv # mvs) (maxscore, bestmove) =
     (case newscore cfg m cnt mv of Inl e \<Rightarrow> Inl e
      | Inr ns \<Rightarrow>
          NW_moves cfg m cnt mvs
            (if ns > maxscore then (ns, Some (generatecoordinates mv cnt))
             else (maxscore, bestmove)))"

definition NW_body :: "NW \<Rightarrow> error + NW" where
  "NW_body s =
     (case generatebasepairs (sequences s) (counter s) of Inl e \<Rightarrow> Inl e
      | Inr basepair \<Rightarrow>
          (case generatemoves basepair of Inl e \<Rightarrow> Inl e
           | Inr moves \<Rightarrow>
               (case NW_moves (config s) (matrix s) (counter s) moves (- 100000000, None) of
                  Inl e \<Rightarrow> Inl e
                | Inr (maxscore, bestmove) \<Rightarrow>
                    (case enterelement (matrix s) (counter s) (mkScore bestmove maxscore) of
                       Inl e \<Rightarrow> Inl e
                     | Inr m' \<Rightarrow>
                         Inr (s\<lparr>matrix := m',
                                counter := increase (sequences s) (counter s)\<rparr>)))))"

text \<open>
  The loop test \<^verbatim>\<open>self.counter[-1] != len(self.sequences[-1]) + 1\<close>.
\<close>

definition running :: "string list \<Rightarrow> int list \<Rightarrow> error + bool" where
  "running seqs cnt =
     (case getitem cnt (- 1) of Inl e \<Rightarrow> Inl e
      | Inr c \<Rightarrow>
          (case getitem seqs (- 1) of Inl e \<Rightarrow> Inl e
           | Inr q \<Rightarrow> Inr (c \<noteq> int (length q) + 1)))"

text \<open>
  \<^verbatim>\<open>solve\<close>: the \<^verbatim>\<open>while\<close> loop. \<open>None\<close> stands for a loop that never ends,
  \<open>Some (Inl e)\<close> for an exception, \<open>Some (Inr s)\<close> for the state on return.
\<close>

partial_function (option) NW_solve :: "NW \<Rightarrow> (error + NW) option" where
  "NW_solve s =
     (case running (sequences s) (counter s) of
        Inl e \<Rightarrow> Some (Inl e)
      | Inr go \<Rightarrow>
          if go then (case NW_body s of Inl e \<Rightarrow> Some (Inl e) | Inr s' \<Rightarrow> NW_solve s')
          else Some (Inr s))"

declare NW_solve.simps [code]

subsection \<open>The report of the global engine\<close>

text \<open>\<^verbatim>\<open>str\<close> of an integer, in decimal.\<close>

fun str_nat :: "nat \<Rightarrow> string" where
  "str_nat n =
     (if n < 10 then [char_of (48 + n)]
      else str_nat (n div 10) @ [char_of (48 + n mod 10)])"

declare str_nat.simps [simp del]

definition str_int :: "int \<Rightarrow> string" where
  "str_int i = (if i < 0 then CHR ''-'' # str_nat (nat (- i)) else str_nat (nat i))"

definition newline :: char where
  "newline = CHR 0x0A"

definition not_solved_message :: string where
  "not_solved_message =
     ''The matrix has not been solved yet. Call the solve() method to solve the matrix.''"

text \<open>
  The traceback loop of \<^verbatim>\<open>NW.__str__\<close>: while \<^verbatim>\<open>currentorigin != [0]*N\<close>, put the
  \<^verbatim>\<open>coordinate\<close> of the current element in front of \<^verbatim>\<open>result\<close> and continue from it.
  A \<^verbatim>\<open>None\<close> coordinate differs from the list, and \<^verbatim>\<open>retrievematrixelement(None)\<close>
  raises TypeError.
\<close>

partial_function (option) NW_trace ::
    "matrix \<Rightarrow> nat \<Rightarrow> int list option \<Rightarrow> int list option list
     \<Rightarrow> (error + int list option list) option" where
  "NW_trace m n currentorigin result =
     (if currentorigin = Some (zeros n) then Some (Inr result)
      else
        (case currentorigin of
           None \<Rightarrow> Some (Inl TypeError)
         | Some c \<Rightarrow>
             (case retrievematrixelement m c of Inl e \<Rightarrow> Some (Inl e)
              | Inr el \<Rightarrow>
                  (case coordinate_of el of Inl e \<Rightarrow> Some (Inl e)
                   | Inr p \<Rightarrow> NW_trace m n p (p # result)))))"

declare NW_trace.simps [code]

text \<open>
  One character of one column: \<^verbatim>\<open>"."\<close> when \<^verbatim>\<open>origin[v] == destination[v]\<close>, else
  \<^verbatim>\<open>self.sequences[v][destination[v] - 1]\<close>.
\<close>

definition column :: "string list \<Rightarrow> int list option \<Rightarrow> int list option \<Rightarrow> nat \<Rightarrow> error + char" where
  "column seqs origin destination v =
     (case origin of None \<Rightarrow> Inl TypeError
      | Some org \<Rightarrow>
          (case getitem org (int v) of Inl e \<Rightarrow> Inl e
           | Inr a \<Rightarrow>
               (case destination of None \<Rightarrow> Inl TypeError
                | Some dst \<Rightarrow>
                    (case getitem dst (int v) of Inl e \<Rightarrow> Inl e
                     | Inr b \<Rightarrow>
                         if a = b then Inr CHR ''.''
                         else (case getitem seqs (int v) of Inl e \<Rightarrow> Inl e
                               | Inr q \<Rightarrow> getitem q (b - 1))))))"

fun emit_columns :: "string list \<Rightarrow> int list option \<Rightarrow> int list option \<Rightarrow> nat list
    \<Rightarrow> string list \<Rightarrow> error + string list" where
  "emit_columns seqs origin destination [] resultstrings = Inr resultstrings"
| "emit_columns seqs origin destination (v # vs) resultstrings =
     (case column seqs origin destination v of Inl e \<Rightarrow> Inl e
      | Inr ch \<Rightarrow>
          emit_columns seqs origin destination vs
            (resultstrings[v := resultstrings ! v @ [ch]]))"

fun emit_rows :: "string list \<Rightarrow> int list option list \<Rightarrow> string list \<Rightarrow> error + string list" where
  "emit_rows seqs (origin # destination # rest) resultstrings =
     (case emit_columns seqs origin destination [0..<length resultstrings] resultstrings of
        Inl e \<Rightarrow> Inl e
      | Inr rs \<Rightarrow> emit_rows seqs (destination # rest) rs)"
| "emit_rows seqs result resultstrings = Inr resultstrings"

text \<open>The \<^verbatim>\<open>else\<close> branch of \<^verbatim>\<open>NW.__str__\<close> up to the final \<^verbatim>\<open>resultstrings\<close>.\<close>

definition NW_alignment :: "NW \<Rightarrow> (error + string list) option" where
  "NW_alignment s =
     (let origin = map (\<lambda>u. int (length u)) (sequences s) in
      case NW_trace (matrix s) (length (sequences s)) (Some origin) [] of
        None \<Rightarrow> None
      | Some (Inl e) \<Rightarrow> Some (Inl e)
      | Some (Inr result) \<Rightarrow>
          Some (emit_rows (sequences s) (result @ [Some origin])
                  (replicate (length (sequences s)) [])))"

text \<open>
  \<^verbatim>\<open>NW.__str__\<close> builds the header from \<^verbatim>\<open>retrievematrixelement(origin).score\<close> first and
  tests \<^verbatim>\<open>retrievematrixelement(origin) == None\<close> after it.
\<close>

definition NW_str :: "NW \<Rightarrow> (error + string) option" where
  "NW_str s =
     (let origin = map (\<lambda>u. int (length u)) (sequences s) in
      case retrievematrixelement (matrix s) origin of Inl e \<Rightarrow> Some (Inl e)
      | Inr el \<Rightarrow>
          (case score_of el of Inl e \<Rightarrow> Some (Inl e)
           | Inr sc \<Rightarrow>
               (let returnstring =
                      ''The score for this alignment is: '' @ str_int sc @ [newline, newline]
                in if el = Cell None then Some (Inr not_solved_message)
                   else
                     (case NW_alignment s of None \<Rightarrow> None
                      | Some (Inl e) \<Rightarrow> Some (Inl e)
                      | Some (Inr resultstrings) \<Rightarrow>
                          Some (Inr (returnstring
                                     @ concat (map (\<lambda>value. value @ [newline]) resultstrings)))))))"

text \<open>
  \<^verbatim>\<open>main\<close> of src/nw.py on the sequences read from the files named on the command line:
  the text it prints, or the exception that escapes.
\<close>

definition NW_main :: "string list \<Rightarrow> (error + string) option" where
  "NW_main seqs =
     (if length seqs \<le> 1 then Some (Inr ''Please give at least 2 sequences'')
      else
        (case NW_init seqs default_config of Inl e \<Rightarrow> Some (Inl e)
         | Inr x \<Rightarrow>
             (case NW_solve x of None \<Rightarrow> None
              | Some (Inl e) \<Rightarrow> Some (Inl e)
              | Some (Inr x') \<Rightarrow> NW_str x')))"

section \<open>The local engine (src/sw.py)\<close>

record SW = NW +
  bestscore :: int
  bestcoordinate :: "int list"

definition SW_init :: "string list \<Rightarrow> Config \<Rightarrow> error + SW" where
  "SW_init seqs cfg =
     (case initializeMatrix seqs of Inl e \<Rightarrow> Inl e
      | Inr m \<Rightarrow>
          (case enterelement m (zeros (length seqs)) (mkScore (Some (zeros (length seqs))) 0) of
             Inl e \<Rightarrow> Inl e
           | Inr m' \<Rightarrow>
               Inr \<lparr>sequences = seqs, config = cfg, matrix = m',
                    counter = 1 # zeros (length seqs - 1),
                    bestscore = 0, bestcoordinate = zeros (length seqs)\<rparr>))"

text \<open>
  The loop over the moves of one coordinate, on \<open>(maxscore, bestmove)\<close> and the running
  \<open>(bestscore, bestcoordinate)\<close>; the latter takes a copy of the counter.
\<close>

fun SW_moves :: "Config \<Rightarrow> matrix \<Rightarrow> int list \<Rightarrow> string list
    \<Rightarrow> (int \<times> int list option) \<times> (int \<times> int list)
    \<Rightarrow> error + ((int \<times> int list option) \<times> (int \<times> int list))" where
  "SW_moves cfg m cnt [] acc = Inr acc"
| "SW_moves cfg m cnt (mv # mvs) ((maxscore, bestmove), (best, bestcoord)) =
     (case newscore cfg m cnt mv of Inl e \<Rightarrow> Inl e
      | Inr ns \<Rightarrow>
          SW_moves cfg m cnt mvs
            ((if ns > maxscore then (ns, Some (generatecoordinates mv cnt))
              else (maxscore, bestmove)),
             (if ns > best then (ns, cnt) else (best, bestcoord))))"

definition SW_body :: "SW \<Rightarrow> error + SW" where
  "SW_body s =
     (case generatebasepairs (sequences s) (counter s) of Inl e \<Rightarrow> Inl e
      | Inr basepair \<Rightarrow>
          (case generatemoves basepair of Inl e \<Rightarrow> Inl e
           | Inr moves \<Rightarrow>
               (case SW_moves (config s) (matrix s) (counter s) moves
                       ((0, None), (bestscore s, bestcoordinate s)) of
                  Inl e \<Rightarrow> Inl e
                | Inr ((maxscore, bestmove), (best, bestcoord)) \<Rightarrow>
                    (case enterelement (matrix s) (counter s) (mkScore bestmove maxscore) of
                       Inl e \<Rightarrow> Inl e
                     | Inr m' \<Rightarrow>
                         Inr (s\<lparr>matrix := m',
                                counter := increase (sequences s) (counter s),
                                bestscore := best, bestcoordinate := bestcoord\<rparr>)))))"

partial_function (option) SW_solve :: "SW \<Rightarrow> (error + SW) option" where
  "SW_solve s =
     (case running (sequences s) (counter s) of
        Inl e \<Rightarrow> Some (Inl e)
      | Inr go \<Rightarrow>
          if go then (case SW_body s of Inl e \<Rightarrow> Some (Inl e) | Inr s' \<Rightarrow> SW_solve s')
          else Some (Inr s))"

declare SW_solve.simps [code]

subsection \<open>The report of the local engine\<close>

text \<open>
  The traceback loop of \<^verbatim>\<open>SW.__str__\<close> stops at the all-zero coordinate or, by
  \<^verbatim>\<open>break\<close>, at an element whose \<^verbatim>\<open>coordinate\<close> is \<^verbatim>\<open>None\<close>; \<^verbatim>\<open>currentorigin\<close>
  is therefore always a list. It returns \<^verbatim>\<open>currentorigin\<close> and \<^verbatim>\<open>result\<close>.
\<close>

partial_function (option) SW_trace ::
    "matrix \<Rightarrow> nat \<Rightarrow> int list \<Rightarrow> int list list \<Rightarrow> (error + int list \<times> int list list) option" where
  "SW_trace m n currentorigin result =
     (if currentorigin \<noteq> zeros n then
        (case retrievematrixelement m currentorigin of Inl e \<Rightarrow> Some (Inl e)
         | Inr el \<Rightarrow>
             (case coordinate_of el of Inl e \<Rightarrow> Some (Inl e)
              | Inr nextorigin \<Rightarrow>
                  (case nextorigin of None \<Rightarrow> Some (Inr (currentorigin, result))
                   | Some p \<Rightarrow> SW_trace m n p (p # result))))
      else Some (Inr (currentorigin, result)))"

declare SW_trace.simps [code]

text \<open>Python slices \<^verbatim>\<open>s[:x]\<close> and \<^verbatim>\<open>s[k:]\<close>, and \<^verbatim>\<open>" " * k\<close>.\<close>

definition slice_to :: "'a list \<Rightarrow> int \<Rightarrow> 'a list" where
  "slice_to s x = (if 0 \<le> x then take (nat x) s else take (nat (int (length s) + x)) s)"

definition slice_from :: "'a list \<Rightarrow> int \<Rightarrow> 'a list" where
  "slice_from s k = (if 0 \<le> k then drop (nat k) s else drop (nat (int (length s) + k)) s)"

definition spaces :: "int \<Rightarrow> string" where
  "spaces k = replicate (nat k) CHR '' ''"

definition SW_header :: string where
  "SW_header =
     ''The aligned portion of the sequences is bounded by |'' @ [newline]
     @ ''All nucleotides outside of these bounds are only there to show the entire sequence, ''
     @ [newline]
     @ ''and there is no alignment between the sequences outside of these bounds.''
     @ [newline, newline] @ ''The score for this alignment is: ''"

text \<open>
  The sequences are Python strings or, as \<^verbatim>\<open>main\<close> reads them with \<^verbatim>\<open>SeqIO.read\<close>,
  \<^verbatim>\<open>SeqRecord\<close> objects. Both have \<^verbatim>\<open>len\<close>, indexing by an integer (one character) and
  slicing, which is all the engines use up to this point; only a \<^verbatim>\<open>SeqRecord\<close> has the
  attribute \<^verbatim>\<open>.seq\<close> that the last list comprehension of \<^verbatim>\<open>SW.__str__\<close> reads, in
  \<^verbatim>\<open>u.seq[:x]\<close> and \<^verbatim>\<open>u[v + 1:].seq\<close>.
\<close>

datatype seqtype = Str | SeqRecord

definition seq_attr :: "seqtype \<Rightarrow> string \<Rightarrow> error + string" where
  "seq_attr ty u = (case ty of Str \<Rightarrow> Inl AttributeError | SeqRecord \<Rightarrow> Inr u)"

text \<open>
  The elements of the comprehension over
  \<^verbatim>\<open>zip(self.sequences, origin, resultstrings, currentorigin)\<close>, in order.
\<close>

fun SW_flanks :: "seqtype \<Rightarrow> int list \<Rightarrow> (string \<times> int \<times> string \<times> int) list
    \<Rightarrow> error + string list" where
  "SW_flanks ty currentorigin [] = Inr []"
| "SW_flanks ty currentorigin ((u, v, w, x) # rest) =
     (case seq_attr ty u of Inl e \<Rightarrow> Inl e
      | Inr useq \<Rightarrow>
          (case seq_attr ty (slice_from u (v + 1)) of Inl e \<Rightarrow> Inl e
           | Inr tail \<Rightarrow>
               (case SW_flanks ty currentorigin rest of Inl e \<Rightarrow> Inl e
                | Inr values \<Rightarrow>
                    Inr ((spaces (Max (set currentorigin) - x) @ slice_to useq x @ ''|'' @ w
                          @ ''|'' @ tail) # values))))"

text \<open>
  The comprehension reads \<^verbatim>\<open>origin\<close>, the variable of the \<^verbatim>\<open>for\<close> loop over
  \<^verbatim>\<open>result\<close>: it is unbound when \<^verbatim>\<open>result\<close> has one entry, and otherwise the entry
  before the last.
\<close>

definition SW_str :: "seqtype \<Rightarrow> SW \<Rightarrow> (error + string) option" where
  "SW_str ty s =
     (let originn = map (\<lambda>u. int (length u)) (sequences s);
          returnstring = SW_header @ str_int (bestscore s) @ [newline, newline]
      in case retrievematrixelement (matrix s) originn of Inl e \<Rightarrow> Some (Inl e)
         | Inr el \<Rightarrow>
             if el = Cell None then Some (Inr not_solved_message)
             else
               (case SW_trace (matrix s) (length (sequences s)) (bestcoordinate s)
                       [bestcoordinate s] of
                  None \<Rightarrow> None
                | Some (Inl e) \<Rightarrow> Some (Inl e)
                | Some (Inr (currentorigin, result)) \<Rightarrow>
                    (case emit_rows (sequences s) (map Some result)
                            (replicate (length (sequences s)) []) of
                       Inl e \<Rightarrow> Some (Inl e)
                     | Inr resultstrings \<Rightarrow>
                         if length result < 2 then Some (Inl UnboundLocalError)
                         else
                           (case SW_flanks ty currentorigin
                                   (zip (sequences s) (zip (result ! (length result - 2))
                                      (zip resultstrings currentorigin))) of
                              Inl e \<Rightarrow> Some (Inl e)
                            | Inr values \<Rightarrow>
                                Some (Inr (returnstring
                                  @ concat (map (\<lambda>value. value @ [newline]) values)))))))"

text \<open>
  \<^verbatim>\<open>main\<close> of src/sw.py; the sequences it passes to the engine are \<^verbatim>\<open>SeqRecord\<close> objects.
\<close>

definition SW_main :: "string list \<Rightarrow> (error + string) option" where
  "SW_main seqs =
     (if length seqs \<le> 1 then Some (Inr ''Please give at least 2 sequences'')
      else
        (case SW_init seqs default_config of Inl e \<Rightarrow> Some (Inl e)
         | Inr x \<Rightarrow>
             (case SW_solve x of None \<Rightarrow> None
              | Some (Inl e) \<Rightarrow> Some (Inl e)
              | Some (Inr x') \<Rightarrow> SW_str SeqRecord x')))"

section \<open>Running the engines\<close>

text \<open>Sequencing of calls that may raise.\<close>

definition bindE :: "error + 'a \<Rightarrow> ('a \<Rightarrow> 'b) \<Rightarrow> error + 'b" where
  "bindE r f = (case r of Inl e \<Rightarrow> Inl e | Inr x \<Rightarrow> Inr (f x))"

text \<open>Construct an engine and call \<^verbatim>\<open>solve()\<close> on it.\<close>

definition NW_run :: "string list \<Rightarrow> Config \<Rightarrow> (error + NW) option" where
  "NW_run seqs cfg = (case NW_init seqs cfg of Inl e \<Rightarrow> Some (Inl e) | Inr s \<Rightarrow> NW_solve s)"

definition SW_run :: "string list \<Rightarrow> Config \<Rightarrow> (error + SW) option" where
  "SW_run seqs cfg = (case SW_init seqs cfg of Inl e \<Rightarrow> Some (Inl e) | Inr s \<Rightarrow> SW_solve s)"

text \<open>The element stored at the all-zero coordinate.\<close>

definition origin_cell :: "'a NW_scheme \<Rightarrow> error + matrix" where
  "origin_cell s = retrievematrixelement (matrix s) (zeros (length (sequences s)))"

section \<open>Auxiliary notions for the proofs\<close>

text \<open>
  The lattice has \<open>length s + 1\<close> positions in the dimension of sequence \<open>s\<close>. A matrix
  is \<open>shaped\<close> when it is a nest of lists of exactly these lengths over single elements;
  a coordinate is in bounds (\<open>inb\<close>) when each entry is a position of its dimension.
\<close>

definition dims :: "string list \<Rightarrow> nat list" where
  "dims seqs = map (\<lambda>s. length s + 1) seqs"

fun shaped :: "nat list \<Rightarrow> matrix \<Rightarrow> bool" where
  "shaped [] m = (case m of Cell v \<Rightarrow> True | Rows ms \<Rightarrow> False)"
| "shaped (d # ds) m =
     (case m of Cell v \<Rightarrow> False | Rows ms \<Rightarrow> length ms = d \<and> (\<forall>x \<in> set ms. shaped ds x))"

definition inb :: "nat list \<Rightarrow> int list \<Rightarrow> bool" where
  "inb ds c = list_all2 (\<lambda>v d. 0 \<le> v \<and> v < int d) c ds"

text \<open>The content of the matrix at a coordinate: \<open>None\<close> is the unset element.\<close>

definition cell_at :: "matrix \<Rightarrow> int list \<Rightarrow> Score option" where
  "cell_at m c = (case retrievematrixelement m c of Inr (Cell v) \<Rightarrow> v | _ \<Rightarrow> None)"

text \<open>
  The place of a coordinate in the traversal: the value of the coordinate read as a
  mixed-radix number, least significant digit first.
\<close>

fun ordinal :: "nat list \<Rightarrow> int list \<Rightarrow> int" where
  "ordinal (d # ds) (c # cs) = c + int d * ordinal ds cs"
| "ordinal ds cs = 0"

text \<open>
  The counter between two iterations: every entry but the last is a position of its
  dimension, and the last may have run over by one, which ends the loop.
\<close>

fun counter_ok :: "nat list \<Rightarrow> int list \<Rightarrow> bool" where
  "counter_ok [d] [c] = (0 \<le> c \<and> c \<le> int d)"
| "counter_ok (d # ds) (c # cs) = (0 \<le> c \<and> c < int d \<and> counter_ok ds cs)"
| "counter_ok ds cs = False"

text \<open>The carry loop of \<^verbatim>\<open>increase\<close> by recursion over the dimensions.\<close>

fun carry :: "nat list \<Rightarrow> int list \<Rightarrow> int list" where
  "carry (d # d' # ds) (c # c' # cs) =
     (if c = int d then 0 # carry (d' # ds) ((c' + 1) # cs) else c # carry (d' # ds) (c' # cs))"
| "carry ds cs = cs"

text \<open>
  What \<^verbatim>\<open>generatebasepairs\<close> returns at a coordinate of the lattice, and the relation
  between a string of base entries and a move made from it: each entry is kept or
  replaced by the gap character.
\<close>

definition bases :: "string list \<Rightarrow> int list \<Rightarrow> string" where
  "bases seqs c = map (\<lambda>(u, q). if u = 0 then CHR ''_'' else q ! nat (u - 1)) (zip c seqs)"

definition variant :: "string \<Rightarrow> string \<Rightarrow> bool" where
  "variant x mv = list_all2 (\<lambda>e c. e = c \<or> e = CHR ''_'') mv x"

definition allgaps :: "nat \<Rightarrow> string" where
  "allgaps n = replicate n CHR ''_''"

text \<open>
  The element the engines seed at the all-zero coordinate, and the relation between a
  filled element and the matrix: the element at \<open>c\<close> is the result of the loop over the
  moves of \<open>c\<close>, run from the start value \<open>init\<close> on the matrix as it is.
\<close>

definition origin_score :: "nat \<Rightarrow> Score" where
  "origin_score n = mkScore (Some (zeros n)) 0"

definition stored :: "int \<times> int list option \<Rightarrow> Config \<Rightarrow> string list \<Rightarrow> matrix \<Rightarrow> int list
    \<Rightarrow> bool" where
  "stored init cfg seqs m c \<longleftrightarrow>
     (\<exists>ms mx bm. generatemoves (bases seqs c) = Inr ms \<and>
        NW_moves cfg m c ms init = Inr (mx, bm) \<and>
        cell_at m c = Some (mkScore bm mx))"

text \<open>
  The state of an engine between two iterations of \<^verbatim>\<open>solve\<close>: the matrix has the shape
  of the lattice, the counter is past the all-zero coordinate, which holds the seed, and
  every other coordinate before the counter in the traversal has been filled, and the
  coordinates from the counter on are unset.
\<close>

definition engine_inv :: "int \<times> int list option \<Rightarrow> Config \<Rightarrow> string list \<Rightarrow> matrix \<Rightarrow> int list
    \<Rightarrow> bool" where
  "engine_inv init cfg seqs m cnt \<longleftrightarrow>
     seqs \<noteq> [] \<and> shaped (dims seqs) m \<and> counter_ok (dims seqs) cnt \<and>
     0 < ordinal (dims seqs) cnt \<and>
     cell_at m (zeros (length seqs)) = Some (origin_score (length seqs)) \<and>
     (\<forall>c. inb (dims seqs) c \<and> c \<noteq> zeros (length seqs) \<and>
          ordinal (dims seqs) c < ordinal (dims seqs) cnt \<longrightarrow> stored init cfg seqs m c) \<and>
     (\<forall>c. inb (dims seqs) c \<and> ordinal (dims seqs) cnt \<le> ordinal (dims seqs) c \<longrightarrow>
          cell_at m c = None)"

definition NW_start :: "int \<times> int list option" where
  "NW_start = (- 100000000, None)"

definition SW_start :: "int \<times> int list option" where
  "SW_start = (0, None)"

text \<open>
  The states an engine passes through during \<^verbatim>\<open>solve\<close>: one iteration of the loop
  leads from a state where the loop test holds to the state after the loop body.
\<close>

definition NW_iter :: "NW \<Rightarrow> NW \<Rightarrow> bool" where
  "NW_iter s s' \<longleftrightarrow> running (sequences s) (counter s) = Inr True \<and> NW_body s = Inr s'"

definition SW_iter :: "SW \<Rightarrow> SW \<Rightarrow> bool" where
  "SW_iter s s' \<longleftrightarrow> running (sequences s) (counter s) = Inr True \<and> SW_body s = Inr s'"

definition NW_inv :: "NW \<Rightarrow> bool" where
  "NW_inv s = engine_inv NW_start (config s) (sequences s) (matrix s) (counter s)"

definition SW_inv :: "SW \<Rightarrow> bool" where
  "SW_inv s = engine_inv SW_start (config s) (sequences s) (matrix s) (counter s)"

text \<open>
  A coordinate is a usable origin of a move when every entry lies between 0 and the
  length of its sequence and the matrix holds a \<^verbatim>\<open>Score\<close> there.
\<close>

definition predecessor_ok :: "string list \<Rightarrow> matrix \<Rightarrow> int list \<Rightarrow> bool" where
  "predecessor_ok seqs m p \<longleftrightarrow>
     list_all2 (\<lambda>v q. 0 \<le> v \<and> v \<le> int (length q)) p seqs \<and>
     (case retrievematrixelement m p of Inr (Cell (Some sc)) \<Rightarrow> True | _ \<Rightarrow> False)"

text \<open>
  The move enumeration at a coordinate, as the first two statements of the loop body of
  \<^verbatim>\<open>solve\<close> run it: \<^verbatim>\<open>generatemoves(generatebasepairs(counter))\<close>.
\<close>

definition moves_at :: "string list \<Rightarrow> int list \<Rightarrow> error + string list" where
  "moves_at seqs c =
     (case generatebasepairs seqs c of Inl e \<Rightarrow> Inl e | Inr basepair \<Rightarrow> generatemoves basepair)"

section \<open>Properties\<close>

subsection \<open>Reports before solve\<close>

lemma SW_str_before_solve:
  "bindE (SW_init [''A'', ''C''] default_config) (SW_str Str) =
     Inr (Some (Inr not_solved_message))"
  by code_simp

text \<open>
  Claim C4. A result accessor queried before \<^verbatim>\<open>solve()\<close> has completed should fail with
  a not-solved condition and not with an unrelated error. On the global engine built from
  the sequences \<^verbatim>\<open>"A"\<close> and \<^verbatim>\<open>"C"\<close> and not solved, \<^verbatim>\<open>__str__\<close> raises AttributeError:
  it reads \<^verbatim>\<open>.score\<close> of the unset far-corner element before its own test for
  \<^verbatim>\<open>None\<close>. The local engine tests first and returns the not-solved message
  (\<open>SW_str_before_solve\<close>).
\<close>

theorem NW_str_before_solve:
  "bindE (NW_init [''A'', ''C''] default_config) NW_str = Inr (Some (Inl AttributeError))"
  by code_simp

subsection \<open>The report of the solved local engine\<close>

text \<open>
  On plain strings the report of a solved local engine raises AttributeError at the first
  read of \<^verbatim>\<open>.seq\<close>; on the \<^verbatim>\<open>SeqRecord\<close> objects of \<^verbatim>\<open>main\<close> it is produced.
\<close>

lemma SW_str_plain_strings:
  "(case SW_run [''A'', ''A''] default_config of Some (Inr s) \<Rightarrow> SW_str Str s) =
     Some (Inl AttributeError)"
  by code_simp

lemma SW_main_report:
  "SW_main [''A'', ''A''] =
     Some (Inr (SW_header @ ''5'' @ [newline, newline] @ ''|A|'' @ [newline] @ ''|A|''
                @ [newline]))"
  by code_simp

subsection \<open>Sequences of length zero\<close>

lemma NW_run_empty_second:
  "NW_run [''A'', ''''] default_config =
     Some (Inr \<lparr>sequences = [''A'', ''''], config = default_config,
       matrix = Rows [Rows [Cell (Some \<lparr>coordinate = Some [0, 0], score = 0, move = None\<rparr>)],
                      Rows [Cell (Some \<lparr>coordinate = Some [0, 0], score = - 4, move = None\<rparr>)]],
       counter = [0, 1]\<rparr>)"
  by code_simp

lemma SW_run_empty_first: "SW_run ['''', ''A''] default_config = Some (Inl IndexError)"
  by code_simp

text \<open>
  Claim C5. With \<open>N \<ge> 2\<close> sequences of which one has length 0, construction and
  \<^verbatim>\<open>solve()\<close> should succeed. On the sequences \<^verbatim>\<open>""\<close> and \<^verbatim>\<open>"A"\<close> the global
  engine's \<^verbatim>\<open>solve()\<close> raises IndexError: the counter starts at \<open>[1, 0]\<close>, outside
  the lattice of the empty first sequence, and \<^verbatim>\<open>generatebasepairs\<close> reads
  \<^verbatim>\<open>sequences[0][0]\<close>. An empty sequence in a later position is handled
  (\<open>NW_run_empty_second\<close>); the local engine fails the same way
  (\<open>SW_run_empty_first\<close>).
\<close>

theorem NW_run_empty_first: "NW_run ['''', ''A''] default_config = Some (Inl IndexError)"
  by code_simp

subsection \<open>Indexing and the matrix\<close>

lemma py_index_nonneg: "0 \<le> i \<Longrightarrow> i < int n \<Longrightarrow> py_index n i = Some (nat i)"
  by (simp add: py_index_def)

lemma getitem_nonneg: "0 \<le> i \<Longrightarrow> i < int (length xs) \<Longrightarrow> getitem xs i = Inr (xs ! nat i)"
  by (simp add: getitem_def py_index_nonneg)

lemma inb_Nil [simp]: "inb [] c \<longleftrightarrow> c = []"
  by (simp add: inb_def)

lemma inb_Cons: "inb (d # ds) c \<longleftrightarrow> (\<exists>u us. c = u # us \<and> 0 \<le> u \<and> u < int d \<and> inb ds us)"
  by (auto simp: inb_def list_all2_Cons2)

lemma inb_Cons_Cons [simp]: "inb (d # ds) (u # us) \<longleftrightarrow> 0 \<le> u \<and> u < int d \<and> inb ds us"
  by (simp add: inb_def)

lemma inb_length: "inb ds c \<Longrightarrow> length c = length ds"
  by (simp add: inb_def list_all2_lengthD)

lemma retrieve_shaped:
  "shaped ds m \<Longrightarrow> inb ds c \<Longrightarrow> \<exists>v. retrievematrixelement m c = Inr (Cell v)"
proof (induction ds arbitrary: m c)
  case Nil
  then show ?case by (cases m) auto
next
  case (Cons d ds)
  from Cons.prems(2) obtain u us where c: "c = u # us" and u: "0 \<le> u" "u < int d" and us: "inb ds us"
    by (auto simp: inb_Cons)
  from Cons.prems(1) obtain ms where m: "m = Rows ms" and len: "length ms = d"
    and all: "\<forall>x \<in> set ms. shaped ds x"
    by (cases m) auto
  from u len have "nat u < length ms" by simp
  with all have "shaped ds (ms ! nat u)" by simp
  from Cons.IH [OF this us] show ?case
    using u len by (simp add: c m getitem_nonneg)
qed

lemma enter_shaped:
  "shaped ds m \<Longrightarrow> inb ds c \<Longrightarrow> ds \<noteq> [] \<Longrightarrow>
   \<exists>m'. enterelement m c v = Inr m' \<and> shaped ds m' \<and>
     (\<forall>c'. inb ds c' \<longrightarrow>
        retrievematrixelement m' c' = (if c' = c then Inr (Cell (Some v)) else retrievematrixelement m c'))"
proof (induction ds arbitrary: m c)
  case Nil
  then show ?case by simp
next
  case (Cons d ds)
  from Cons.prems(2) obtain u us where c: "c = u # us" and u: "0 \<le> u" "u < int d" and us: "inb ds us"
    by (auto simp: inb_Cons)
  from Cons.prems(1) obtain ms where m: "m = Rows ms" and len: "length ms = d"
    and all: "\<forall>x \<in> set ms. shaped ds x"
    by (cases m) auto
  from u len have lt: "nat u < length ms" by simp
  have idx: "py_index (length ms) u = Some (nat u)"
    using u len by (simp add: py_index_nonneg)
  show ?case
  proof (cases ds)
    case Nil
    with us have [simp]: "us = []" by simp
    have sh: "shaped (d # ds) (Rows (ms[nat u := Cell (Some v)]))"
      using all len Nil by (auto dest!: set_update_subset_insert [THEN subsetD])
    have "retrievematrixelement (Rows (ms[nat u := Cell (Some v)])) c' =
            (if c' = c then Inr (Cell (Some v)) else retrievematrixelement m c')"
      if "inb (d # ds) c'" for c'
    proof -
      from that Nil obtain u' where c': "c' = [u']" and u': "0 \<le> u'" "u' < int d"
        by (auto simp: inb_Cons)
      show ?thesis
        using u u' len lt by (auto simp: c c' m getitem_nonneg nth_list_update)
    qed
    moreover have "enterelement m c v = Inr (Rows (ms[nat u := Cell (Some v)]))"
      by (simp add: c m idx)
    ultimately show ?thesis
      using sh by blast
  next
    case (Cons d' ds')
    with us obtain u2 us2 where us2: "us = u2 # us2"
      by (auto simp: inb_Cons)
    from all lt have "shaped ds (ms ! nat u)" by simp
    from Cons.IH [OF this us] Cons obtain m1 where
      e1: "enterelement (ms ! nat u) us v = Inr m1" and s1: "shaped ds m1" and
      r1: "\<And>c'. inb ds c' \<Longrightarrow> retrievematrixelement m1 c' =
              (if c' = us then Inr (Cell (Some v)) else retrievematrixelement (ms ! nat u) c')"
      by auto
    have e: "enterelement m c v = Inr (Rows (ms[nat u := m1]))"
      using e1 by (simp add: c m us2 idx)
    have sh: "shaped (d # ds) (Rows (ms[nat u := m1]))"
      using all len s1 by (auto dest!: set_update_subset_insert [THEN subsetD])
    have "retrievematrixelement (Rows (ms[nat u := m1])) c' =
            (if c' = c then Inr (Cell (Some v)) else retrievematrixelement m c')"
      if "inb (d # ds) c'" for c'
    proof -
      from that obtain u' us' where c': "c' = u' # us'" and u': "0 \<le> u'" "u' < int d"
        and us': "inb ds us'"
        by (auto simp: inb_Cons)
      show ?thesis
        using u u' len lt r1 [OF us'] by (auto simp: c c' m getitem_nonneg nth_list_update)
    qed
    with e sh show ?thesis by blast
  qed
qed

lemma dims_length [simp]: "length (dims seqs) = length seqs"
  by (simp add: dims_def)

lemma dims_Cons [simp]: "dims (s # ss) = (length s + 1) # dims ss"
  by (simp add: dims_def)

lemma dims_Nil [simp]: "dims [] = []"
  by (simp add: dims_def)

lemma initializeMatrix_shaped:
  "seqs \<noteq> [] \<Longrightarrow>
   \<exists>m. initializeMatrix seqs = Inr m \<and> shaped (dims seqs) m \<and>
     (\<forall>c. inb (dims seqs) c \<longrightarrow> retrievematrixelement m c = Inr (Cell None))"
proof (induction seqs rule: initializeMatrix.induct)
  case 1
  then show ?case by simp
next
  case (2 s)
  show ?case
    by (auto simp: inb_Cons getitem_nonneg simp del: replicate_Suc)
next
  case (3 s s' ss)
  then obtain m where m: "initializeMatrix (s' # ss) = Inr m" "shaped (dims (s' # ss)) m"
    and r: "\<And>c. inb (dims (s' # ss)) c \<Longrightarrow> retrievematrixelement m c = Inr (Cell None)"
    by auto
  have "retrievematrixelement (Rows (replicate (length s + 1) m)) c = Inr (Cell None)"
    if "inb (dims (s # s' # ss)) c" for c
  proof -
    from that obtain u us where c: "c = u # us" and u: "0 \<le> u" "u < int (length s + 1)"
      and us: "inb (dims (s' # ss)) us"
      by (auto simp: inb_Cons)
    show ?thesis
      using u r [OF us] by (simp add: c getitem_nonneg del: replicate_Suc)
  qed
  with m show ?case by (simp del: replicate_Suc)
qed

lemma increase_at_Suc:
  "increase_at (s # ss) (Suc x) (c # cs) = c # increase_at ss x cs"
  by (simp add: increase_at_def)

lemma fold_increase_at_Suc:
  "fold (increase_at (s # ss)) (map Suc xs) (c # cs) = c # fold (increase_at ss) xs cs"
  by (induction xs arbitrary: cs) (simp_all add: increase_at_Suc)

lemma fold_increase_carry:
  "length cs = length ss \<Longrightarrow>
   fold (increase_at ss) [0..<length ss - 1] cs = carry (dims ss) cs"
proof (induction ss arbitrary: cs)
  case Nil
  then show ?case by simp
next
  case (Cons s ss)
  show ?case
  proof (cases ss)
    case Nil
    then show ?thesis using Cons.prems by (cases cs) auto
  next
    case (Cons s' ss')
    with Cons.prems obtain c c' cs' where cs: "cs = c # c' # cs'"
      by (cases cs; cases "tl cs") auto
    have upt: "[0..<length (s # ss) - 1] = 0 # map Suc [0..<length ss - 1]"
      using Cons by (simp add: upt_conv_Cons map_Suc_upt del: upt_Suc)
    show ?thesis
    proof (cases "c = int (length s) + 1")
      case True
      have "fold (increase_at (s # ss)) [0..<length (s # ss) - 1] cs =
              0 # fold (increase_at ss) [0..<length ss - 1] ((c' + 1) # cs')"
        unfolding upt using True
        by (simp add: cs increase_at_def fold_increase_at_Suc)
      also have "fold (increase_at ss) [0..<length ss - 1] ((c' + 1) # cs')
                   = carry (dims ss) ((c' + 1) # cs')"
        using Cons.prems cs by (intro Cons.IH) simp
      finally show ?thesis
        using True Cons by (simp add: cs)
    next
      case False
      have "fold (increase_at (s # ss)) [0..<length (s # ss) - 1] cs =
              c # fold (increase_at ss) [0..<length ss - 1] (c' # cs')"
        unfolding upt using False
        by (simp add: cs increase_at_def fold_increase_at_Suc)
      also have "fold (increase_at ss) [0..<length ss - 1] (c' # cs')
                   = carry (dims ss) (c' # cs')"
        using Cons.prems cs by (intro Cons.IH) simp
      finally show ?thesis
        using False Cons by (simp add: cs)
    qed
  qed
qed

lemma increase_carry:
  "length cnt = length seqs \<Longrightarrow> cnt = c # cs \<Longrightarrow>
   increase seqs cnt = carry (dims seqs) ((c + 1) # cs)"
  using fold_increase_carry [of "(c + 1) # cs" seqs] by (simp add: increase_def)

subsection \<open>The odometer\<close>

lemma inb_pos: "inb ds c \<Longrightarrow> d \<in> set ds \<Longrightarrow> 0 < d"
  by (induction ds arbitrary: c) (auto simp: inb_Cons)

lemma ordinal_nonneg: "inb ds c \<Longrightarrow> 0 \<le> ordinal ds c"
  by (induction ds arbitrary: c) (auto simp: inb_Cons)

lemma ordinal_less: "inb ds c \<Longrightarrow> ordinal ds c < int (prod_list ds)"
proof (induction ds arbitrary: c)
  case Nil
  then show ?case by simp
next
  case (Cons d ds)
  then obtain u us where c: "c = u # us" and u: "0 \<le> u" "u < int d" and us: "inb ds us"
    by (auto simp: inb_Cons)
  from Cons.IH [OF us] have "ordinal ds us + 1 \<le> int (prod_list ds)" by simp
  then have "int d * (ordinal ds us + 1) \<le> int d * int (prod_list ds)"
    by (intro mult_left_mono) simp_all
  then show ?case using u by (simp add: c algebra_simps)
qed

lemma ordinal_inj:
  "inb ds c \<Longrightarrow> inb ds c' \<Longrightarrow> ordinal ds c = ordinal ds c' \<Longrightarrow> c = c'"
proof (induction ds arbitrary: c c')
  case Nil
  then show ?case by simp
next
  case (Cons d ds)
  from Cons.prems(1) obtain u us where c: "c = u # us" and u: "0 \<le> u" "u < int d"
    and us: "inb ds us"
    by (auto simp: inb_Cons)
  from Cons.prems(2) obtain u' us' where c': "c' = u' # us'" and u': "0 \<le> u'" "u' < int d"
    and us': "inb ds us'"
    by (auto simp: inb_Cons)
  from Cons.prems(3) have eq: "u + int d * ordinal ds us = u' + int d * ordinal ds us'"
    by (simp add: c c')
  have "(u + int d * ordinal ds us) mod int d = u"
    using u by simp
  moreover have "(u' + int d * ordinal ds us') mod int d = u'"
    using u' by simp
  ultimately have uu: "u = u'" using eq by simp
  with eq u have "ordinal ds us = ordinal ds us'" by simp
  with Cons.IH [OF us us'] uu show ?case by (simp add: c c')
qed

lemma ordinal_mono:
  "inb ds c \<Longrightarrow> inb ds p \<Longrightarrow> list_all2 (\<le>) p c \<Longrightarrow> ordinal ds p \<le> ordinal ds c"
proof (induction ds arbitrary: c p)
  case Nil
  then show ?case by simp
next
  case (Cons d ds)
  from Cons.prems(1) obtain u us where c: "c = u # us" and us: "inb ds us"
    by (auto simp: inb_Cons)
  from Cons.prems(2) obtain v vs where p: "p = v # vs" and vs: "inb ds vs"
    by (auto simp: inb_Cons)
  from Cons.prems(3) have le: "v \<le> u" "list_all2 (\<le>) vs us" by (simp_all add: c p)
  from Cons.IH [OF us vs le(2)] have "int d * ordinal ds vs \<le> int d * ordinal ds us"
    by (intro mult_left_mono) simp_all
  with le(1) show ?case by (simp add: c p)
qed

lemma ordinal_strict:
  "inb ds c \<Longrightarrow> inb ds p \<Longrightarrow> list_all2 (\<le>) p c \<Longrightarrow> p \<noteq> c \<Longrightarrow> ordinal ds p < ordinal ds c"
  using ordinal_mono [of ds c p] ordinal_inj [of ds p c] by fastforce

lemma ordinal_zeros [simp]: "ordinal ds (zeros n) = 0"
  by (induction ds arbitrary: n) (case_tac n, auto simp: zeros_def)+

lemma inb_zeros: "\<forall>d \<in> set ds. 0 < d \<Longrightarrow> inb ds (zeros (length ds))"
  by (induction ds) (auto simp: zeros_def)

lemma ordinal_zero_iff: "inb ds c \<Longrightarrow> ordinal ds c = 0 \<longleftrightarrow> c = zeros (length ds)"
  using ordinal_inj [of ds c "zeros (length ds)"] inb_zeros [of ds] inb_pos [of ds c]
  by auto

lemma counter_ok_length: "counter_ok ds cs \<Longrightarrow> length cs = length ds \<and> ds \<noteq> []"
  by (induction ds cs rule: counter_ok.induct) auto

lemma carry_length [simp]: "length (carry ds cs) = length cs"
  by (induction ds cs rule: carry.induct) auto

lemma carry_ok:
  "0 \<le> c \<Longrightarrow> c \<le> int d \<Longrightarrow> 0 < d \<Longrightarrow> inb ds cs \<Longrightarrow>
   counter_ok (d # ds) (carry (d # ds) (c # cs)) \<and>
   ordinal (d # ds) (carry (d # ds) (c # cs)) = ordinal (d # ds) (c # cs)"
proof (induction ds arbitrary: d c cs)
  case Nil
  then show ?case by simp
next
  case (Cons d' ds)
  from Cons.prems(4) obtain c' cs' where cs: "cs = c' # cs'" and c': "0 \<le> c'" "c' < int d'"
    and cs': "inb ds cs'"
    by (auto simp: inb_Cons)
  from c' have d': "0 < d'" by simp
  show ?case
  proof (cases "c = int d")
    case True
    from Cons.IH [of "c' + 1" d' cs'] c' d' cs'
    have "counter_ok (d' # ds) (carry (d' # ds) ((c' + 1) # cs'))"
      and "ordinal (d' # ds) (carry (d' # ds) ((c' + 1) # cs')) = ordinal (d' # ds) ((c' + 1) # cs')"
      by simp_all
    with True Cons.prems(3) show ?thesis
      by (cases "carry (d' # ds) ((c' + 1) # cs')") (auto simp: cs algebra_simps)
  next
    case False
    from Cons.IH [of c' d' cs'] c' d' cs'
    have "counter_ok (d' # ds) (carry (d' # ds) (c' # cs'))"
      and "ordinal (d' # ds) (carry (d' # ds) (c' # cs')) = ordinal (d' # ds) (c' # cs')"
      by simp_all
    with False Cons.prems show ?thesis
      by (cases "carry (d' # ds) (c' # cs')") (auto simp: cs algebra_simps)
  qed
qed

lemma counter_ok_Cons:
  "counter_ok (d # ds) cs \<longleftrightarrow>
     (\<exists>c cs'. cs = c # cs' \<and> 0 \<le> c \<and>
        (if ds = [] then cs' = [] \<and> c \<le> int d else c < int d \<and> counter_ok ds cs'))"
proof (cases cs)
  case Nil
  then show ?thesis by (cases ds) auto
next
  case (Cons c cs')
  then show ?thesis by (cases ds; cases cs') auto
qed

lemma counter_ok_inb:
  "counter_ok ds cs \<Longrightarrow> last cs \<noteq> int (last ds) \<Longrightarrow> inb ds cs"
proof (induction ds arbitrary: cs)
  case Nil
  then show ?case by simp
next
  case (Cons d ds)
  from Cons.prems(1) obtain c cs' where cs: "cs = c # cs'" and c: "0 \<le> c"
    and r: "if ds = [] then cs' = [] \<and> c \<le> int d else c < int d \<and> counter_ok ds cs'"
    by (auto simp: counter_ok_Cons)
  show ?case
  proof (cases "ds = []")
    case True
    with r Cons.prems(2) c show ?thesis by (simp add: cs)
  next
    case False
    with r have ok: "counter_ok ds cs'" and lt: "c < int d" by simp_all
    from ok have "cs' \<noteq> []" using counter_ok_length by fastforce
    with Cons.prems(2) False have "last cs' \<noteq> int (last ds)" by (simp add: cs)
    from Cons.IH [OF ok this] c lt show ?thesis by (simp add: cs)
  qed
qed

lemma counter_ok_end:
  "counter_ok ds cs \<Longrightarrow> last cs = int (last ds) \<Longrightarrow> int (prod_list ds) \<le> ordinal ds cs"
proof (induction ds arbitrary: cs)
  case Nil
  then show ?case by simp
next
  case (Cons d ds)
  from Cons.prems(1) obtain c cs' where cs: "cs = c # cs'" and c: "0 \<le> c"
    and r: "if ds = [] then cs' = [] \<and> c \<le> int d else c < int d \<and> counter_ok ds cs'"
    by (auto simp: counter_ok_Cons)
  show ?case
  proof (cases "ds = []")
    case True
    with r Cons.prems(2) c show ?thesis by (simp add: cs)
  next
    case False
    with r have ok: "counter_ok ds cs'" by simp
    from ok have "cs' \<noteq> []" using counter_ok_length by fastforce
    with Cons.prems(2) False have "last cs' = int (last ds)" by (simp add: cs)
    from Cons.IH [OF ok this] have "int d * int (prod_list ds) \<le> int d * ordinal ds cs'"
      by (intro mult_left_mono) simp_all
    with c show ?thesis by (simp add: cs)
  qed
qed

lemma running_eq:
  "length cnt = length seqs \<Longrightarrow> seqs \<noteq> [] \<Longrightarrow>
   running seqs cnt = Inr (last cnt \<noteq> int (last (dims seqs)))"
proof -
  assume a: "length cnt = length seqs" "seqs \<noteq> []"
  then have "cnt \<noteq> []" by auto
  have g: "getitem xs (- 1) = Inr (last xs)" if "xs \<noteq> []" for xs :: "'a list"
    using that by (cases xs rule: rev_cases) (auto simp: getitem_def py_index_def nth_append)
  from a have "last (dims seqs) = length (last seqs) + 1"
    by (simp add: dims_def last_map)
  with a \<open>cnt \<noteq> []\<close> show ?thesis
    by (auto simp: running_def g)
qed

subsection \<open>Base entries, moves and origin coordinates\<close>

lemma basepairs_loop_inb:
  "inb (dims (drop k seqs)) c \<Longrightarrow>
   basepairs_loop seqs (zip c [k..<k + length c]) = Inr (bases (drop k seqs) c)"
proof (induction c arbitrary: k)
  case Nil
  then show ?case by (simp add: bases_def)
next
  case (Cons u us)
  from Cons.prems have len: "length (u # us) = length (drop k seqs)"
    using inb_length by fastforce
  then have k: "k < length seqs" by auto
  then have dr: "drop k seqs = seqs ! k # drop (Suc k) seqs"
    by (simp add: Cons_nth_drop_Suc)
  from Cons.prems have u: "0 \<le> u" "u < int (length (seqs ! k) + 1)"
    and us: "inb (dims (drop (Suc k) seqs)) us"
    by (simp_all add: dr)
  have upt: "[k..<k + length (u # us)] = k # [Suc k..<Suc k + length us]"
    by (subst upt_rec) simp
  have g1: "getitem seqs (int k) = Inr (seqs ! k)"
    using k by (simp add: getitem_nonneg)
  have g2: "getitem (seqs ! k) (u - 1) = Inr (seqs ! k ! nat (u - 1))" if "u \<noteq> 0"
    using that u by (simp add: getitem_nonneg)
  show ?case
    unfolding upt using Cons.IH [OF us] g1 g2
    by (simp add: dr bases_def)
qed

lemma generatebasepairs_inb:
  "inb (dims seqs) c \<Longrightarrow> generatebasepairs seqs c = Inr (bases seqs c)"
  using basepairs_loop_inb [of 0 seqs c] by (simp add: generatebasepairs_def)

lemma bases_length: "inb (dims seqs) c \<Longrightarrow> length (bases seqs c) = length seqs"
  using inb_length [of "dims seqs" c] by (simp add: bases_def)

lemma variant_Cons:
  "variant (c # cs) z' \<longleftrightarrow> (\<exists>e z. z' = e # z \<and> (e = c \<or> e = CHR ''_'') \<and> variant cs z)"
  by (auto simp: variant_def list_all2_Cons2)

lemma moves_loop_set:
  "set (moves_loop cs rv) = {y @ z |y z. y \<in> set rv \<and> variant cs z}"
proof (induction cs arbitrary: rv)
  case Nil
  then show ?case by (auto simp: variant_def)
next
  case (Cons c cs)
  define rv' where "rv' = (if c = CHR ''_'' then map (\<lambda>y. y @ ''_'') rv
        else map (\<lambda>y. y @ [c]) rv @ map (\<lambda>y. y @ ''_'') rv)"
  have s: "set rv' = {y @ [e] |y e. y \<in> set rv \<and> (e = c \<or> e = CHR ''_'')}"
    by (auto simp: rv'_def)
  have "set (moves_loop (c # cs) rv) = {y @ z |y z. y \<in> set rv' \<and> variant cs z}"
    using Cons.IH [of rv'] by (simp add: rv'_def)
  also have "\<dots> = {y @ z |y z. y \<in> set rv \<and> variant (c # cs) z}"
  proof (intro set_eqI iffI)
    fix w assume "w \<in> {y @ z |y z. y \<in> set rv' \<and> variant cs z}"
    then obtain y e z where "w = (y @ [e]) @ z" "y \<in> set rv" "e = c \<or> e = CHR ''_''"
      "variant cs z"
      unfolding s by blast
    then have "w = y @ (e # z)" "variant (c # cs) (e # z)" "y \<in> set rv"
      by (auto simp: variant_Cons)
    then show "w \<in> {y @ z |y z. y \<in> set rv \<and> variant (c # cs) z}" by blast
  next
    fix w assume "w \<in> {y @ z |y z. y \<in> set rv \<and> variant (c # cs) z}"
    then obtain y e z where "w = y @ (e # z)" "y \<in> set rv" "e = c \<or> e = CHR ''_''"
      "variant cs z"
      by (auto simp: variant_Cons)
    then have "w = (y @ [e]) @ z" "y @ [e] \<in> set rv'" "variant cs z"
      unfolding s by auto
    then show "w \<in> {y @ z |y z. y \<in> set rv' \<and> variant cs z}" by blast
  qed
  finally show ?case .
qed

lemma moves_loop_distinct: "distinct rv \<Longrightarrow> distinct (moves_loop cs rv)"
proof (induction cs arbitrary: rv)
  case Nil
  then show ?case by simp
next
  case (Cons c cs)
  have inj: "inj_on (\<lambda>y. y @ [e]) A" for e :: char and A
    by (simp add: inj_on_def)
  from Cons.prems have "distinct (map (\<lambda>y. y @ [e]) rv)" for e :: char
    by (simp add: distinct_map inj)
  then show ?case
    by (auto intro!: Cons.IH)
qed

lemma moves_loop_length:
  "length (moves_loop cs rv) = length rv * 2 ^ length (filter (\<lambda>c. c \<noteq> CHR ''_'') cs)"
  by (induction cs arbitrary: rv) auto

lemma variant_allgaps: "variant x (allgaps (length x))"
  by (simp add: variant_def allgaps_def list_all2_conv_all_nth)

lemma variant_length: "variant x mv \<Longrightarrow> length mv = length x"
  by (simp add: variant_def list_all2_lengthD)

lemma generatemoves_ok:
  assumes "x \<noteq> []"
  shows "\<exists>ms. generatemoves x = Inr ms \<and> distinct ms \<and>
           set ms = {mv. variant x mv} - {allgaps (length x)} \<and>
           length ms = 2 ^ length (filter (\<lambda>c. c \<noteq> CHR ''_'') x) - 1"
proof -
  from assms obtain c cs where x: "x = c # cs" by (cases x) auto
  define rv0 where "rv0 = (if c \<noteq> CHR ''_'' then [[c], ''_''] else [[c]])"
  define rv where "rv = moves_loop cs rv0"
  have d0: "distinct rv0" by (simp add: rv0_def)
  have s0: "set rv0 = {[e] |e. e = c \<or> e = CHR ''_''}"
    by (auto simp: rv0_def)
  have set_rv: "set rv = {mv. variant x mv}"
    unfolding rv_def moves_loop_set s0
    apply (auto simp: x variant_Cons)
     apply (rule_tac x = "[c]" in exI, simp)
    apply (rule_tac x = "[CHR ''_'']" in exI, simp)
    done
  have dist: "distinct rv" unfolding rv_def using d0 by (rule moves_loop_distinct)
  have len: "length rv = 2 ^ length (filter (\<lambda>c. c \<noteq> CHR ''_'') x)"
    unfolding rv_def moves_loop_length by (simp add: rv0_def x)
  have mem: "allgaps (length x) \<in> set rv"
    using set_rv variant_allgaps by blast
  have "generatemoves x = Inr (remove1 (allgaps (length x)) rv)"
    using mem by (simp add: generatemoves_def x rv_def rv0_def allgaps_def Let_def)
  moreover have "distinct (remove1 (allgaps (length x)) rv)"
    using dist by simp
  moreover have "set (remove1 (allgaps (length x)) rv) = {mv. variant x mv} - {allgaps (length x)}"
    using dist set_rv by simp
  moreover have "length (remove1 (allgaps (length x)) rv) =
      2 ^ length (filter (\<lambda>c. c \<noteq> CHR ''_'') x) - 1"
    using mem len by (simp add: length_remove1)
  ultimately show ?thesis by blast
qed

lemma generatecoordinates_variant:
  "inb (dims seqs) cnt \<Longrightarrow> variant (bases seqs cnt) mv \<Longrightarrow>
   inb (dims seqs) (generatecoordinates mv cnt) \<and>
   list_all2 (\<le>) (generatecoordinates mv cnt) cnt \<and>
   (generatecoordinates mv cnt = cnt \<longleftrightarrow> mv = allgaps (length seqs))"
proof (induction seqs arbitrary: cnt mv)
  case Nil
  then show ?case
    by (simp add: variant_def bases_def generatecoordinates_def allgaps_def)
next
  case (Cons q qs)
  from Cons.prems(1) obtain u us where cnt: "cnt = u # us" and u: "0 \<le> u" "u < int (length q + 1)"
    and us: "inb (dims qs) us"
    by (auto simp: inb_Cons)
  from Cons.prems(2) obtain e es where mv: "mv = e # es"
    and e: "e = (if u = 0 then CHR ''_'' else q ! nat (u - 1)) \<or> e = CHR ''_''"
    and es: "variant (bases qs us) es"
    by (auto simp: cnt variant_Cons bases_def)
  have gc: "generatecoordinates mv cnt =
      (if e = CHR ''_'' then u else u - 1) # generatecoordinates es us"
    by (simp add: generatecoordinates_def mv cnt)
  have "length es = length qs"
    using variant_length [OF es] bases_length [OF us] by simp
  then have ag: "mv = allgaps (length (q # qs)) \<longleftrightarrow> e = CHR ''_'' \<and> es = allgaps (length qs)"
    by (auto simp: mv allgaps_def)
  from Cons.IH [OF us es]
  have ih: "inb (dims qs) (generatecoordinates es us)"
    "list_all2 (\<le>) (generatecoordinates es us) us"
    "generatecoordinates es us = us \<longleftrightarrow> es = allgaps (length qs)"
    by simp_all
  show ?case
  proof (cases "e = CHR ''_''")
    case True
    with ih u show ?thesis unfolding gc ag by (simp add: cnt)
  next
    case False
    with e have "u \<noteq> 0" by (auto split: if_splits)
    with False ih u show ?thesis unfolding gc ag by (simp add: cnt)
  qed
qed

subsection \<open>One iteration of solve\<close>

lemma cell_at_retrieve:
  "shaped ds m \<Longrightarrow> inb ds c \<Longrightarrow> retrievematrixelement m c = Inr (Cell (cell_at m c))"
  using retrieve_shaped [of ds m c] by (auto simp: cell_at_def)

lemma newscore_cong:
  "retrievematrixelement m' (generatecoordinates mv cnt) =
     retrievematrixelement m (generatecoordinates mv cnt) \<Longrightarrow>
   newscore cfg m' cnt mv = newscore cfg m cnt mv"
  by (simp add: newscore_def)

lemma NW_moves_cong:
  "(\<And>mv. mv \<in> set ms \<Longrightarrow>
      retrievematrixelement m' (generatecoordinates mv cnt) =
        retrievematrixelement m (generatecoordinates mv cnt)) \<Longrightarrow>
   NW_moves cfg m' cnt ms acc = NW_moves cfg m cnt ms acc"
proof (induction ms arbitrary: acc)
  case Nil
  then show ?case by simp
next
  case (Cons mv ms)
  obtain a b where acc: "acc = (a, b)" by (cases acc)
  have "newscore cfg m' cnt mv = newscore cfg m cnt mv"
    using Cons.prems by (intro newscore_cong) simp
  then show ?case
    using Cons.IH Cons.prems by (simp add: acc split: sum.splits)
qed

lemma NW_moves_total:
  "(\<And>mv. mv \<in> set ms \<Longrightarrow>
      \<exists>sc. retrievematrixelement m (generatecoordinates mv cnt) = Inr (Cell (Some sc))) \<Longrightarrow>
   \<exists>r. NW_moves cfg m cnt ms acc = Inr r"
proof (induction ms arbitrary: acc)
  case Nil
  then show ?case by simp
next
  case (Cons mv ms)
  obtain a b where acc: "acc = (a, b)" by (cases acc)
  from Cons.prems [of mv] obtain sc where
    "retrievematrixelement m (generatecoordinates mv cnt) = Inr (Cell (Some sc))"
    by auto
  then have "newscore cfg m cnt mv = Inr (score sc + movescore cfg mv)"
    by (simp add: newscore_def score_of_def)
  then show ?case
    using Cons.IH Cons.prems by (simp add: acc)
qed

lemma SW_moves_NW_moves:
  "map_sum id fst (SW_moves cfg m cnt ms (a, b)) = NW_moves cfg m cnt ms a"
proof (induction ms arbitrary: a b)
  case Nil
  then show ?case by simp
next
  case (Cons mv ms)
  obtain a1 a2 where a: "a = (a1, a2)" by (cases a)
  obtain b1 b2 where b: "b = (b1, b2)" by (cases b)
  show ?case
    using Cons.IH by (simp add: a b split: sum.splits)
qed

lemma moves_origin:
  assumes "seqs \<noteq> []" "inb (dims seqs) cnt" "generatemoves (bases seqs cnt) = Inr ms"
    "mv \<in> set ms"
  shows "inb (dims seqs) (generatecoordinates mv cnt)"
    and "list_all2 (\<le>) (generatecoordinates mv cnt) cnt"
    and "ordinal (dims seqs) (generatecoordinates mv cnt) < ordinal (dims seqs) cnt"
proof -
  have ne: "bases seqs cnt \<noteq> []"
    using assms(1) bases_length [OF assms(2)] by auto
  from generatemoves_ok [OF ne] assms(3,4)
  have v: "variant (bases seqs cnt) mv" and ng: "mv \<noteq> allgaps (length seqs)"
    using bases_length [OF assms(2)] by auto
  from generatecoordinates_variant [OF assms(2) v] ng
  show i: "inb (dims seqs) (generatecoordinates mv cnt)"
    and l: "list_all2 (\<le>) (generatecoordinates mv cnt) cnt"
    and n: "ordinal (dims seqs) (generatecoordinates mv cnt) < ordinal (dims seqs) cnt"
    using ordinal_strict [OF assms(2)] by auto
qed

lemma engine_inv_filled:
  assumes "engine_inv init cfg seqs m cnt" "inb (dims seqs) p"
    "ordinal (dims seqs) p < ordinal (dims seqs) cnt"
  shows "\<exists>sc. retrievematrixelement m p = Inr (Cell (Some sc))"
proof -
  from assms(1) have sh: "shaped (dims seqs) m" by (simp add: engine_inv_def)
  have "\<exists>sc. cell_at m p = Some sc"
  proof (cases "p = zeros (length seqs)")
    case True
    with assms(1) show ?thesis by (simp add: engine_inv_def)
  next
    case False
    with assms have "stored init cfg seqs m p" by (simp add: engine_inv_def)
    then show ?thesis by (auto simp: stored_def)
  qed
  with cell_at_retrieve [OF sh assms(2)] show ?thesis by auto
qed

lemma increase_ok:
  assumes "inb (dims seqs) cnt" "seqs \<noteq> []"
  shows "counter_ok (dims seqs) (increase seqs cnt)"
    and "ordinal (dims seqs) (increase seqs cnt) = ordinal (dims seqs) cnt + 1"
proof -
  from assms obtain q qs where seqs: "seqs = q # qs" by (cases seqs) auto
  from assms(1) obtain c cs where cnt: "cnt = c # cs" and c: "0 \<le> c" "c < int (length q + 1)"
    and cs: "inb (dims qs) cs"
    by (auto simp: seqs inb_Cons)
  have len: "length cnt = length seqs"
    using inb_length [OF assms(1)] by simp
  have inc: "increase seqs cnt = carry (dims seqs) ((c + 1) # cs)"
    using len cnt by (rule increase_carry)
  from carry_ok [of "c + 1" "length q + 1" "dims qs" cs] c cs
  have "counter_ok (dims seqs) (carry (dims seqs) ((c + 1) # cs))"
    and "ordinal (dims seqs) (carry (dims seqs) ((c + 1) # cs)) =
         ordinal (dims seqs) ((c + 1) # cs)"
    by (simp_all add: seqs)
  then show "counter_ok (dims seqs) (increase seqs cnt)"
    and "ordinal (dims seqs) (increase seqs cnt) = ordinal (dims seqs) cnt + 1"
    unfolding inc by (simp_all add: seqs cnt)
qed

lemma engine_step:
  assumes inv: "engine_inv init cfg seqs m cnt"
    and run: "last cnt \<noteq> int (last (dims seqs))"
  shows "\<exists>ms r m'. generatebasepairs seqs cnt = Inr (bases seqs cnt) \<and>
           generatemoves (bases seqs cnt) = Inr ms \<and>
           NW_moves cfg m cnt ms init = Inr r \<and>
           enterelement m cnt (mkScore (snd r) (fst r)) = Inr m' \<and>
           engine_inv init cfg seqs m' (increase seqs cnt) \<and>
           ordinal (dims seqs) (increase seqs cnt) = ordinal (dims seqs) cnt + 1"
proof -
  let ?ds = "dims seqs"
  let ?z = "zeros (length seqs)"
  from inv have ne: "seqs \<noteq> []" and sh: "shaped ?ds m" and ok: "counter_ok ?ds cnt"
    and pos: "0 < ordinal ?ds cnt"
    and org: "cell_at m ?z = Some (origin_score (length seqs))"
    and st: "\<And>c. inb ?ds c \<Longrightarrow> c \<noteq> ?z \<Longrightarrow> ordinal ?ds c < ordinal ?ds cnt \<Longrightarrow>
               stored init cfg seqs m c"
    and un: "\<And>c. inb ?ds c \<Longrightarrow> ordinal ?ds cnt \<le> ordinal ?ds c \<Longrightarrow> cell_at m c = None"
    by (auto simp: engine_inv_def)
  from ok run have inb: "inb ?ds cnt" by (rule counter_ok_inb)
  have bp: "generatebasepairs seqs cnt = Inr (bases seqs cnt)"
    using inb by (rule generatebasepairs_inb)
  have "bases seqs cnt \<noteq> []"
    using ne bases_length [OF inb] by auto
  from generatemoves_ok [OF this] obtain ms where ms: "generatemoves (bases seqs cnt) = Inr ms"
    by blast
  have pre: "\<exists>sc. retrievematrixelement m (generatecoordinates mv cnt) = Inr (Cell (Some sc))"
    if "mv \<in> set ms" for mv
    using moves_origin [OF ne inb ms that] engine_inv_filled [OF inv] by blast
  from NW_moves_total [of ms m cnt cfg init] pre
  obtain r where r: "NW_moves cfg m cnt ms init = Inr r" by blast
  have dne: "?ds \<noteq> []" using ne by (simp add: dims_def)
  from enter_shaped [OF sh inb dne, of "mkScore (snd r) (fst r)"]
  obtain m' where e: "enterelement m cnt (mkScore (snd r) (fst r)) = Inr m'"
    and sh': "shaped ?ds m'"
    and ret: "\<And>c'. inb ?ds c' \<Longrightarrow> retrievematrixelement m' c' =
        (if c' = cnt then Inr (Cell (Some (mkScore (snd r) (fst r))))
         else retrievematrixelement m c')"
    by blast
  have cell: "cell_at m' c' = (if c' = cnt then Some (mkScore (snd r) (fst r)) else cell_at m c')"
    if "inb ?ds c'" for c'
    using ret [OF that] by (simp add: cell_at_def)
  have ok': "counter_ok ?ds (increase seqs cnt)"
    and ord': "ordinal ?ds (increase seqs cnt) = ordinal ?ds cnt + 1"
    using increase_ok [OF inb ne] by simp_all
  have zin: "inb ?ds ?z"
    using inb_zeros [of ?ds] inb_pos [OF inb] by simp
  have zne: "?z \<noteq> cnt"
    using pos by auto
  have org': "cell_at m' ?z = Some (origin_score (length seqs))"
    using cell [OF zin] zne org by simp
  have same: "NW_moves cfg m' c ms' init = NW_moves cfg m c ms' init"
    if c: "inb ?ds c" "ordinal ?ds c \<le> ordinal ?ds cnt"
      and ms': "generatemoves (bases seqs c) = Inr ms'" for c ms'
  proof (rule NW_moves_cong)
    fix mv assume mv: "mv \<in> set ms'"
    from moves_origin [OF ne c(1) ms' mv]
    have p: "inb ?ds (generatecoordinates mv c)"
      and lt: "ordinal ?ds (generatecoordinates mv c) < ordinal ?ds c"
      by simp_all
    from lt c(2) have "generatecoordinates mv c \<noteq> cnt" by auto
    with ret [OF p] show "retrievematrixelement m' (generatecoordinates mv c) =
        retrievematrixelement m (generatecoordinates mv c)"
      by simp
  qed
  have st': "stored init cfg seqs m' c"
    if c: "inb ?ds c" "c \<noteq> ?z" "ordinal ?ds c < ordinal ?ds (increase seqs cnt)" for c
  proof (cases "c = cnt")
    case True
    have "NW_moves cfg m' cnt ms init = Inr (fst r, snd r)"
      using same [OF inb _ ms] r by simp
    moreover have "cell_at m' cnt = Some (mkScore (snd r) (fst r))"
      using cell [OF inb] by simp
    ultimately show ?thesis
      unfolding stored_def True using ms by blast
  next
    case False
    with ordinal_inj [OF c(1) inb] have "ordinal ?ds c \<noteq> ordinal ?ds cnt" by blast
    with c(3) ord' have lt: "ordinal ?ds c < ordinal ?ds cnt" by simp
    from st [OF c(1,2) lt] obtain ms' mx bm where
      ms': "generatemoves (bases seqs c) = Inr ms'"
      and nw: "NW_moves cfg m c ms' init = Inr (mx, bm)"
      and ce: "cell_at m c = Some (mkScore bm mx)"
      by (auto simp: stored_def)
    have "NW_moves cfg m' c ms' init = Inr (mx, bm)"
      using same [OF c(1) _ ms'] lt nw by simp
    moreover have "cell_at m' c = Some (mkScore bm mx)"
      using cell [OF c(1)] False ce by simp
    ultimately show ?thesis
      unfolding stored_def using ms' by blast
  qed
  have un': "cell_at m' c = None"
    if c: "inb ?ds c" "ordinal ?ds (increase seqs cnt) \<le> ordinal ?ds c" for c
  proof -
    from c(2) ord' have "c \<noteq> cnt" by auto
    with cell [OF c(1)] un [OF c(1)] c(2) ord' show ?thesis by simp
  qed
  have "engine_inv init cfg seqs m' (increase seqs cnt)"
    unfolding engine_inv_def using ne sh' ok' ord' pos org' st' un' by auto
  with bp ms r e ord' show ?thesis by blast
qed

subsection \<open>Construction and the loop of solve\<close>

lemma counter_ok_zeros: "qs \<noteq> [] \<Longrightarrow> counter_ok (dims qs) (zeros (length qs))"
proof (induction qs)
  case Nil
  then show ?case by simp
next
  case (Cons q qs)
  then show ?case by (cases qs) (auto simp: zeros_def)
qed

lemma dims_pos: "d \<in> set (dims seqs) \<Longrightarrow> 0 < d"
  by (auto simp: dims_def)

lemma first_counter_ok:
  assumes "seqs \<noteq> []" "length seqs = 1 \<or> hd seqs \<noteq> []"
  shows "counter_ok (dims seqs) (1 # zeros (length seqs - 1))"
proof -
  from assms(1) obtain q qs where seqs: "seqs = q # qs" by (cases seqs) auto
  show ?thesis
  proof (cases qs)
    case Nil
    then show ?thesis by (simp add: seqs zeros_def)
  next
    case (Cons q' qs')
    with assms(2) have "q \<noteq> []" by (simp add: seqs)
    then have "1 < int (length q + 1)" by (cases q) auto
    moreover have "counter_ok (dims qs) (zeros (length qs))"
      using Cons by (intro counter_ok_zeros) simp
    ultimately show ?thesis
      using Cons by (cases "zeros (length qs)") (auto simp: seqs zeros_def)
  qed
qed

lemma init_matrix:
  assumes "seqs \<noteq> []"
  shows "\<exists>m0 m. initializeMatrix seqs = Inr m0 \<and>
           enterelement m0 (zeros (length seqs)) (origin_score (length seqs)) = Inr m \<and>
           shaped (dims seqs) m \<and>
           cell_at m (zeros (length seqs)) = Some (origin_score (length seqs)) \<and>
           (\<forall>c. inb (dims seqs) c \<and> c \<noteq> zeros (length seqs) \<longrightarrow> cell_at m c = None)"
proof -
  let ?ds = "dims seqs"
  let ?z = "zeros (length seqs)"
  from initializeMatrix_shaped [OF assms] obtain m0 where
    m0: "initializeMatrix seqs = Inr m0" and sh0: "shaped ?ds m0"
    and r0: "\<And>c. inb ?ds c \<Longrightarrow> retrievematrixelement m0 c = Inr (Cell None)"
    by blast
  have zin: "inb ?ds ?z"
    using inb_zeros [of ?ds] dims_pos by simp
  have dne: "?ds \<noteq> []" using assms by (simp add: dims_def)
  from enter_shaped [OF sh0 zin dne, of "origin_score (length seqs)"]
  obtain m where e: "enterelement m0 ?z (origin_score (length seqs)) = Inr m"
    and sh: "shaped ?ds m"
    and ret: "\<And>c'. inb ?ds c' \<Longrightarrow> retrievematrixelement m c' =
        (if c' = ?z then Inr (Cell (Some (origin_score (length seqs))))
         else retrievematrixelement m0 c')"
    by blast
  have "cell_at m ?z = Some (origin_score (length seqs))"
    using ret [OF zin] by (simp add: cell_at_def)
  moreover have "cell_at m c = None" if "inb ?ds c" "c \<noteq> ?z" for c
    using ret [OF that(1)] r0 [OF that(1)] that(2) by (simp add: cell_at_def)
  ultimately show ?thesis using m0 e sh by blast
qed

lemma init_inv:
  assumes "seqs \<noteq> []" "length seqs = 1 \<or> hd seqs \<noteq> []"
  shows "\<exists>m0 m. initializeMatrix seqs = Inr m0 \<and>
           enterelement m0 (zeros (length seqs)) (origin_score (length seqs)) = Inr m \<and>
           engine_inv init cfg seqs m (1 # zeros (length seqs - 1))"
proof -
  let ?ds = "dims seqs"
  let ?z = "zeros (length seqs)"
  let ?c = "1 # zeros (length seqs - 1)"
  from init_matrix [OF assms(1)] obtain m0 m where
    m0: "initializeMatrix seqs = Inr m0"
    and e: "enterelement m0 ?z (origin_score (length seqs)) = Inr m"
    and sh: "shaped ?ds m"
    and org: "cell_at m ?z = Some (origin_score (length seqs))"
    and non: "\<And>c. inb ?ds c \<Longrightarrow> c \<noteq> ?z \<Longrightarrow> cell_at m c = None"
    by blast
  have ok: "counter_ok ?ds ?c" using assms by (rule first_counter_ok)
  from assms(1) obtain q qs where seqs: "seqs = q # qs" by (cases seqs) auto
  have ord: "ordinal ?ds ?c = 1" by (simp add: seqs)
  have "stored init cfg seqs m c"
    if "inb ?ds c" "c \<noteq> ?z" "ordinal ?ds c < ordinal ?ds ?c" for c
  proof -
    from that(3) ord ordinal_nonneg [OF that(1)] have "ordinal ?ds c = 0" by simp
    with ordinal_zero_iff [OF that(1)] that(2) show ?thesis by simp
  qed
  moreover have "cell_at m c = None" if "inb ?ds c" "ordinal ?ds ?c \<le> ordinal ?ds c" for c
  proof -
    from that(2) ord have "c \<noteq> ?z" by auto
    with non [OF that(1)] show ?thesis by simp
  qed
  ultimately have "engine_inv init cfg seqs m ?c"
    unfolding engine_inv_def using assms(1) sh ok ord org by auto
  with m0 e show ?thesis by blast
qed

lemma NW_init_eq:
  "seqs \<noteq> [] \<Longrightarrow> \<exists>m. NW_init seqs cfg =
     Inr \<lparr>sequences = seqs, config = cfg, matrix = m, counter = 1 # zeros (length seqs - 1)\<rparr>
     \<and> shaped (dims seqs) m
     \<and> cell_at m (zeros (length seqs)) = Some (origin_score (length seqs))"
  using init_matrix [of seqs] by (auto simp: NW_init_def origin_score_def)

lemma NW_init_inv:
  assumes "NW_init seqs cfg = Inr s" "length seqs = 1 \<or> hd seqs \<noteq> []"
  shows "NW_inv s \<and> sequences s = seqs \<and> config s = cfg"
proof -
  from assms(1) have ne: "seqs \<noteq> []" by (auto simp: NW_init_def)
  from init_inv [OF ne assms(2), of NW_start cfg] assms(1) show ?thesis
    by (auto simp: NW_init_def NW_inv_def origin_score_def)
qed

lemma SW_init_inv:
  assumes "SW_init seqs cfg = Inr s" "length seqs = 1 \<or> hd seqs \<noteq> []"
  shows "SW_inv s \<and> sequences s = seqs \<and> config s = cfg"
proof -
  from assms(1) have ne: "seqs \<noteq> []" by (auto simp: SW_init_def)
  from init_inv [OF ne assms(2), of SW_start cfg] assms(1) show ?thesis
    by (auto simp: SW_init_def SW_inv_def origin_score_def)
qed

lemma inv_running:
  assumes "engine_inv init cfg seqs m cnt"
  shows "running seqs cnt = Inr (last cnt \<noteq> int (last (dims seqs)))"
proof -
  from assms have "counter_ok (dims seqs) cnt" "seqs \<noteq> []" by (simp_all add: engine_inv_def)
  with counter_ok_length [of "dims seqs" cnt] show ?thesis
    by (intro running_eq) simp_all
qed

lemma NW_body_step:
  assumes "NW_inv s" "running (sequences s) (counter s) = Inr True"
  shows "\<exists>s'. NW_body s = Inr s' \<and> NW_inv s' \<and> sequences s' = sequences s \<and>
           config s' = config s \<and>
           ordinal (dims (sequences s)) (counter s') = ordinal (dims (sequences s)) (counter s) + 1"
proof -
  from assms have inv: "engine_inv NW_start (config s) (sequences s) (matrix s) (counter s)"
    by (simp add: NW_inv_def)
  from inv_running [OF inv] assms(2)
  have run: "last (counter s) \<noteq> int (last (dims (sequences s)))" by simp
  from engine_step [OF inv run] obtain ms mx bm m' where
    "generatebasepairs (sequences s) (counter s) = Inr (bases (sequences s) (counter s))"
    "generatemoves (bases (sequences s) (counter s)) = Inr ms"
    "NW_moves (config s) (matrix s) (counter s) ms NW_start = Inr (mx, bm)"
    "enterelement (matrix s) (counter s) (mkScore bm mx) = Inr m'"
    "engine_inv NW_start (config s) (sequences s) m' (increase (sequences s) (counter s))"
    "ordinal (dims (sequences s)) (increase (sequences s) (counter s)) =
       ordinal (dims (sequences s)) (counter s) + 1"
    by force
  then show ?thesis
    by (simp add: NW_body_def NW_inv_def NW_start_def)
qed

lemma SW_body_step:
  assumes "SW_inv s" "running (sequences s) (counter s) = Inr True"
  shows "\<exists>s'. SW_body s = Inr s' \<and> SW_inv s' \<and> sequences s' = sequences s \<and>
           config s' = config s \<and>
           ordinal (dims (sequences s)) (counter s') = ordinal (dims (sequences s)) (counter s) + 1"
proof -
  from assms have inv: "engine_inv SW_start (config s) (sequences s) (matrix s) (counter s)"
    by (simp add: SW_inv_def)
  from inv_running [OF inv] assms(2)
  have run: "last (counter s) \<noteq> int (last (dims (sequences s)))" by simp
  from engine_step [OF inv run] obtain ms mx bm m' where
    bp: "generatebasepairs (sequences s) (counter s) = Inr (bases (sequences s) (counter s))"
    and ms: "generatemoves (bases (sequences s) (counter s)) = Inr ms"
    and nw: "NW_moves (config s) (matrix s) (counter s) ms SW_start = Inr (mx, bm)"
    and e: "enterelement (matrix s) (counter s) (mkScore bm mx) = Inr m'"
    and inv': "engine_inv SW_start (config s) (sequences s) m' (increase (sequences s) (counter s))"
    and ord: "ordinal (dims (sequences s)) (increase (sequences s) (counter s)) =
       ordinal (dims (sequences s)) (counter s) + 1"
    by force
  from SW_moves_NW_moves [of "config s" "matrix s" "counter s" ms SW_start
      "(bestscore s, bestcoordinate s)"] nw
  obtain b bc where
    "SW_moves (config s) (matrix s) (counter s) ms (SW_start, (bestscore s, bestcoordinate s))
       = Inr ((mx, bm), (b, bc))"
    by (cases "SW_moves (config s) (matrix s) (counter s) ms
          (SW_start, (bestscore s, bestcoordinate s))") auto
  with bp ms e inv' ord show ?thesis
    by (simp add: SW_body_def SW_inv_def SW_start_def)
qed

lemma inv_measure:
  assumes "engine_inv init cfg seqs m cnt" "last cnt \<noteq> int (last (dims seqs))"
  shows "ordinal (dims seqs) cnt < int (prod_list (dims seqs))"
proof -
  from assms(1) have "counter_ok (dims seqs) cnt" by (simp add: engine_inv_def)
  from counter_ok_inb [OF this assms(2)] show ?thesis by (rule ordinal_less)
qed

lemma NW_solve_inv:
  "NW_inv s \<Longrightarrow>
   \<exists>s'. NW_solve s = Some (Inr s') \<and> NW_inv s' \<and> sequences s' = sequences s \<and>
     config s' = config s \<and> running (sequences s') (counter s') = Inr False"
proof (induction "nat (int (prod_list (dims (sequences s)))
                       - ordinal (dims (sequences s)) (counter s))"
       arbitrary: s rule: less_induct)
  case less
  from less.prems have inv: "engine_inv NW_start (config s) (sequences s) (matrix s) (counter s)"
    by (simp add: NW_inv_def)
  note run = inv_running [OF inv]
  show ?case
  proof (cases "last (counter s) \<noteq> int (last (dims (sequences s)))")
    case False
    with run have "NW_solve s = Some (Inr s)"
      by (subst NW_solve.simps) simp
    with False run less.prems show ?thesis by simp
  next
    case True
    with run have r: "running (sequences s) (counter s) = Inr True" by simp
    from NW_body_step [OF less.prems r] obtain s' where
      b: "NW_body s = Inr s'" and inv': "NW_inv s'" and sq: "sequences s' = sequences s"
      and cf: "config s' = config s"
      and ord: "ordinal (dims (sequences s)) (counter s') =
                ordinal (dims (sequences s)) (counter s) + 1"
      by blast
    from inv_measure [OF inv True] ord
    have "nat (int (prod_list (dims (sequences s'))) - ordinal (dims (sequences s')) (counter s'))
        < nat (int (prod_list (dims (sequences s))) - ordinal (dims (sequences s)) (counter s))"
      by (simp add: sq)
    from less.hyps [OF this inv'] obtain s'' where
      "NW_solve s' = Some (Inr s'')" "NW_inv s''" "sequences s'' = sequences s'"
      "config s'' = config s'" "running (sequences s'') (counter s'') = Inr False"
      by blast
    moreover have "NW_solve s = NW_solve s'"
      using r b by (subst NW_solve.simps) simp
    ultimately show ?thesis using sq cf by auto
  qed
qed

lemma SW_solve_inv:
  "SW_inv s \<Longrightarrow>
   \<exists>s'. SW_solve s = Some (Inr s') \<and> SW_inv s' \<and> sequences s' = sequences s \<and>
     config s' = config s \<and> running (sequences s') (counter s') = Inr False"
proof (induction "nat (int (prod_list (dims (sequences s)))
                       - ordinal (dims (sequences s)) (counter s))"
       arbitrary: s rule: less_induct)
  case less
  from less.prems have inv: "engine_inv SW_start (config s) (sequences s) (matrix s) (counter s)"
    by (simp add: SW_inv_def)
  note run = inv_running [OF inv]
  show ?case
  proof (cases "last (counter s) \<noteq> int (last (dims (sequences s)))")
    case False
    with run have "SW_solve s = Some (Inr s)"
      by (subst SW_solve.simps) simp
    with False run less.prems show ?thesis by simp
  next
    case True
    with run have r: "running (sequences s) (counter s) = Inr True" by simp
    from SW_body_step [OF less.prems r] obtain s' where
      b: "SW_body s = Inr s'" and inv': "SW_inv s'" and sq: "sequences s' = sequences s"
      and cf: "config s' = config s"
      and ord: "ordinal (dims (sequences s)) (counter s') =
                ordinal (dims (sequences s)) (counter s) + 1"
      by blast
    from inv_measure [OF inv True] ord
    have "nat (int (prod_list (dims (sequences s'))) - ordinal (dims (sequences s')) (counter s'))
        < nat (int (prod_list (dims (sequences s))) - ordinal (dims (sequences s)) (counter s))"
      by (simp add: sq)
    from less.hyps [OF this inv'] obtain s'' where
      "SW_solve s' = Some (Inr s'')" "SW_inv s''" "sequences s'' = sequences s'"
      "config s'' = config s'" "running (sequences s'') (counter s'') = Inr False"
      by blast
    moreover have "SW_solve s = SW_solve s'"
      using r b by (subst SW_solve.simps) simp
    ultimately show ?thesis using sq cf by auto
  qed
qed

text \<open>After the loop every coordinate of the lattice but the all-zero one is filled.\<close>

lemma inv_final:
  assumes "engine_inv init cfg seqs m cnt" "running seqs cnt = Inr False"
    "inb (dims seqs) c" "c \<noteq> zeros (length seqs)"
  shows "stored init cfg seqs m c"
proof -
  from inv_running [OF assms(1)] assms(2)
  have "last cnt = int (last (dims seqs))" by simp
  moreover from assms(1) have "counter_ok (dims seqs) cnt" by (simp add: engine_inv_def)
  ultimately have "int (prod_list (dims seqs)) \<le> ordinal (dims seqs) cnt"
    by (intro counter_ok_end)
  with ordinal_less [OF assms(3)] have "ordinal (dims seqs) c < ordinal (dims seqs) cnt"
    by simp
  with assms show ?thesis by (simp add: engine_inv_def)
qed

text \<open>
  With two or more sequences of which the first is empty, the first iteration fails in
  \<^verbatim>\<open>generatebasepairs\<close>.
\<close>

lemma basepairs_empty_first:
  "generatebasepairs ([] # q # qs) (1 # cs) = Inl IndexError"
proof -
  have "zip (1 # cs) [0..<length (1 # cs)] = (1, 0) # zip cs [1..<Suc (length cs)]"
    by (simp add: upt_conv_Cons del: upt_Suc)
  then show ?thesis
    by (simp add: generatebasepairs_def getitem_def py_index_def)
qed

lemma NW_body_empty_first:
  assumes "NW_init seqs cfg = Inr s" "\<not> (length seqs = 1 \<or> hd seqs \<noteq> [])"
  shows "NW_body s = Inl IndexError" "running (sequences s) (counter s) = Inr True"
proof -
  from assms(1) have ne: "seqs \<noteq> []" by (auto simp: NW_init_def)
  with assms(2) obtain q qs where seqs: "seqs = [] # q # qs"
    by (cases seqs; cases "tl seqs") auto
  from NW_init_eq [OF ne, of cfg] assms(1)
  have s: "sequences s = seqs" "counter s = 1 # zeros (length seqs - 1)" by auto
  show "NW_body s = Inl IndexError"
    using basepairs_empty_first [of q qs] by (simp add: NW_body_def s seqs)
  show "running (sequences s) (counter s) = Inr True"
    unfolding s by (subst running_eq) (auto simp: seqs zeros_def dims_def last_map)
qed

subsection \<open>The states passed through during solve\<close>

lemma NW_solve_reach_aux:
  assumes "NW_solve s = Some r"
  shows "\<forall>sf. r = Inr sf \<longrightarrow>
     NW_iter\<^sup>*\<^sup>* s sf \<and> running (sequences sf) (counter sf) = Inr False"
proof (rule NW_solve.raw_induct [where P = "\<lambda>s r. \<forall>sf. r = Inr sf \<longrightarrow>
     NW_iter\<^sup>*\<^sup>* s sf \<and> running (sequences sf) (counter sf) = Inr False", OF _ assms],
    goal_cases)
  case (1 solve s r)
  show ?case
  proof (cases "running (sequences s) (counter s)")
    case (Inl e)
    with 1(2) show ?thesis by auto
  next
    case (Inr go)
    show ?thesis
    proof (cases go)
      case False
      with Inr 1(2) show ?thesis by auto
    next
      case True
      show ?thesis
      proof (cases "NW_body s")
        case (Inl e)
        with True Inr 1(2) show ?thesis by auto
      next
        case b: (Inr s')
        with True Inr 1(2) have "solve s' = Some r" by simp
        from 1(1) [OF this]
        have ih: "\<forall>sf. r = Inr sf \<longrightarrow>
            NW_iter\<^sup>*\<^sup>* s' sf \<and> running (sequences sf) (counter sf) = Inr False" .
        have "NW_iter s s'" using True Inr b by (simp add: NW_iter_def)
        with ih show ?thesis by (auto intro: converse_rtranclp_into_rtranclp)
      qed
    qed
  qed
qed

lemma NW_solve_reach:
  "NW_solve s = Some (Inr sf) \<Longrightarrow>
   NW_iter\<^sup>*\<^sup>* s sf \<and> running (sequences sf) (counter sf) = Inr False"
  using NW_solve_reach_aux by blast

lemma SW_solve_reach_aux:
  assumes "SW_solve s = Some r"
  shows "\<forall>sf. r = Inr sf \<longrightarrow>
     SW_iter\<^sup>*\<^sup>* s sf \<and> running (sequences sf) (counter sf) = Inr False"
proof (rule SW_solve.raw_induct [where P = "\<lambda>s r. \<forall>sf. r = Inr sf \<longrightarrow>
     SW_iter\<^sup>*\<^sup>* s sf \<and> running (sequences sf) (counter sf) = Inr False", OF _ assms],
    goal_cases)
  case (1 solve s r)
  show ?case
  proof (cases "running (sequences s) (counter s)")
    case (Inl e)
    with 1(2) show ?thesis by auto
  next
    case (Inr go)
    show ?thesis
    proof (cases go)
      case False
      with Inr 1(2) show ?thesis by auto
    next
      case True
      show ?thesis
      proof (cases "SW_body s")
        case (Inl e)
        with True Inr 1(2) show ?thesis by auto
      next
        case b: (Inr s')
        with True Inr 1(2) have "solve s' = Some r" by simp
        from 1(1) [OF this]
        have ih: "\<forall>sf. r = Inr sf \<longrightarrow>
            SW_iter\<^sup>*\<^sup>* s' sf \<and> running (sequences sf) (counter sf) = Inr False" .
        have "SW_iter s s'" using True Inr b by (simp add: SW_iter_def)
        with ih show ?thesis by (auto intro: converse_rtranclp_into_rtranclp)
      qed
    qed
  qed
qed

lemma SW_solve_reach:
  "SW_solve s = Some (Inr sf) \<Longrightarrow>
   SW_iter\<^sup>*\<^sup>* s sf \<and> running (sequences sf) (counter sf) = Inr False"
  using SW_solve_reach_aux by blast

lemma NW_reach_inv:
  assumes "NW_iter\<^sup>*\<^sup>* s0 s" "NW_inv s0"
  shows "NW_inv s \<and> sequences s = sequences s0 \<and> config s = config s0"
  using assms
proof (induction rule: rtranclp_induct)
  case base
  then show ?case by simp
next
  case (step s s')
  then have "NW_inv s" "running (sequences s) (counter s) = Inr True" "NW_body s = Inr s'"
    by (simp_all add: NW_iter_def)
  from NW_body_step [OF this(1,2)] this(3) step show ?case by auto
qed

lemma SW_reach_inv:
  assumes "SW_iter\<^sup>*\<^sup>* s0 s" "SW_inv s0"
  shows "SW_inv s \<and> sequences s = sequences s0 \<and> config s = config s0"
  using assms
proof (induction rule: rtranclp_induct)
  case base
  then show ?case by simp
next
  case (step s s')
  then have "SW_inv s" "running (sequences s) (counter s) = Inr True" "SW_body s = Inr s'"
    by (simp_all add: SW_iter_def)
  from SW_body_step [OF this(1,2)] this(3) step show ?case by auto
qed

lemma NW_reach_stuck:
  assumes "NW_iter\<^sup>*\<^sup>* s0 s" "NW_body s0 = Inl e"
  shows "s = s0"
  using assms by (induction rule: converse_rtranclp_induct) (auto simp: NW_iter_def)

lemma SW_reach_stuck:
  assumes "SW_iter\<^sup>*\<^sup>* s0 s" "SW_body s0 = Inl e"
  shows "s = s0"
  using assms by (induction rule: converse_rtranclp_induct) (auto simp: SW_iter_def)

lemma SW_init_eq:
  "seqs \<noteq> [] \<Longrightarrow> \<exists>m. SW_init seqs cfg =
     Inr \<lparr>sequences = seqs, config = cfg, matrix = m, counter = 1 # zeros (length seqs - 1),
          bestscore = 0, bestcoordinate = zeros (length seqs)\<rparr>
     \<and> shaped (dims seqs) m
     \<and> cell_at m (zeros (length seqs)) = Some (origin_score (length seqs))"
  using init_matrix [of seqs] by (auto simp: SW_init_def origin_score_def)

lemma SW_body_empty_first:
  assumes "SW_init seqs cfg = Inr s" "\<not> (length seqs = 1 \<or> hd seqs \<noteq> [])"
  shows "SW_body s = Inl IndexError" "running (sequences s) (counter s) = Inr True"
proof -
  from assms(1) have ne: "seqs \<noteq> []" by (auto simp: SW_init_def)
  with assms(2) obtain q qs where seqs: "seqs = [] # q # qs"
    by (cases seqs; cases "tl seqs") auto
  from SW_init_eq [OF ne, of cfg] assms(1)
  have s: "sequences s = seqs" "counter s = 1 # zeros (length seqs - 1)" by auto
  show "SW_body s = Inl IndexError"
    using basepairs_empty_first [of q qs] by (simp add: SW_body_def s seqs)
  show "running (sequences s) (counter s) = Inr True"
    unfolding s by (subst running_eq) (auto simp: seqs zeros_def dims_def last_map)
qed

subsection \<open>Origins of moves\<close>

lemma inb_bounds:
  "inb (dims seqs) p \<longleftrightarrow> list_all2 (\<lambda>v q. 0 \<le> v \<and> v \<le> int (length q)) p seqs"
proof -
  have "(\<lambda>v q. 0 \<le> v \<and> v < int (length (q :: string) + 1)) = (\<lambda>v q. 0 \<le> v \<and> v \<le> int (length q))"
    by (intro ext) auto
  then show ?thesis
    by (simp add: inb_def dims_def list_all2_map2)
qed

lemma basepairs_first_fails:
  assumes "seqs \<noteq> []" "\<not> (length seqs = 1 \<or> hd seqs \<noteq> [])"
  shows "generatebasepairs seqs (1 # zeros (length seqs - 1)) = Inl IndexError"
proof -
  from assms obtain q qs where seqs: "seqs = [] # q # qs"
    by (cases seqs; cases "tl seqs") auto
  show ?thesis
    using basepairs_empty_first [of q qs] by (simp add: seqs)
qed

lemma inv_predecessor_ok:
  assumes inv: "engine_inv init cfg seqs m cnt"
    and run: "running seqs cnt = Inr True"
    and bp: "generatebasepairs seqs cnt = Inr bp"
    and ms: "generatemoves bp = Inr ms"
    and mv: "mv \<in> set ms"
  shows "predecessor_ok seqs m (generatecoordinates mv cnt)"
proof -
  from inv have ne: "seqs \<noteq> []" and ok: "counter_ok (dims seqs) cnt"
    by (simp_all add: engine_inv_def)
  from inv_running [OF inv] run have "last cnt \<noteq> int (last (dims seqs))" by simp
  with ok have inb: "inb (dims seqs) cnt" by (rule counter_ok_inb)
  from generatebasepairs_inb [OF inb] bp have "bp = bases seqs cnt" by simp
  with ms have ms': "generatemoves (bases seqs cnt) = Inr ms" by simp
  from moves_origin [OF ne inb ms' mv]
  have p: "inb (dims seqs) (generatecoordinates mv cnt)"
    and lt: "ordinal (dims seqs) (generatecoordinates mv cnt) < ordinal (dims seqs) cnt"
    by simp_all
  from engine_inv_filled [OF inv p lt] p show ?thesis
    by (auto simp: predecessor_ok_def inb_bounds)
qed

text \<open>
  Claim C10. During \<^verbatim>\<open>solve()\<close>, at every coordinate the traversal visits and for every
  move enumerated there, the origin coordinate of the move is within bounds (every entry
  between 0 and the length of its sequence) and has already been filled, so the lookup
  succeeds and never reads an unset element. Both engines: a visited state is one reached
  from the constructed engine by iterations of the loop, in which the loop test holds.
\<close>

theorem predecessors_within_bounds_and_filled:
  "(NW_init seqs cfg = Inr s0 \<and> NW_iter\<^sup>*\<^sup>* s0 s \<and>
    running (sequences s) (counter s) = Inr True \<and>
    generatebasepairs (sequences s) (counter s) = Inr bp \<and> generatemoves bp = Inr ms \<and>
    mv \<in> set ms
    \<longrightarrow> predecessor_ok seqs (matrix s) (generatecoordinates mv (counter s))) \<and>
   (SW_init seqs cfg = Inr t0 \<and> SW_iter\<^sup>*\<^sup>* t0 t \<and>
    running (sequences t) (counter t) = Inr True \<and>
    generatebasepairs (sequences t) (counter t) = Inr bp' \<and> generatemoves bp' = Inr ms' \<and>
    mv' \<in> set ms'
    \<longrightarrow> predecessor_ok seqs (matrix t) (generatecoordinates mv' (counter t)))"
proof (intro conjI impI; elim conjE)
  assume init: "NW_init seqs cfg = Inr s0" and reach: "NW_iter\<^sup>*\<^sup>* s0 s"
    and run: "running (sequences s) (counter s) = Inr True"
    and bp: "generatebasepairs (sequences s) (counter s) = Inr bp"
    and ms: "generatemoves bp = Inr ms" and mv: "mv \<in> set ms"
  from init have ne: "seqs \<noteq> []" by (auto simp: NW_init_def)
  show "predecessor_ok seqs (matrix s) (generatecoordinates mv (counter s))"
  proof (cases "length seqs = 1 \<or> hd seqs \<noteq> []")
    case True
    from NW_init_inv [OF init True] NW_reach_inv [OF reach]
    have "NW_inv s" "sequences s = seqs" by simp_all
    with inv_predecessor_ok [OF _ run bp ms mv] show ?thesis
      by (simp add: NW_inv_def)
  next
    case False
    from NW_body_empty_first [OF init False] NW_reach_stuck [OF reach]
    have "s = s0" by simp
    moreover from NW_init_eq [OF ne, of cfg] init
    have "sequences s0 = seqs" "counter s0 = 1 # zeros (length seqs - 1)" by auto
    ultimately show ?thesis
      using basepairs_first_fails [OF ne False] bp by simp
  qed
next
  assume init: "SW_init seqs cfg = Inr t0" and reach: "SW_iter\<^sup>*\<^sup>* t0 t"
    and run: "running (sequences t) (counter t) = Inr True"
    and bp: "generatebasepairs (sequences t) (counter t) = Inr bp'"
    and ms: "generatemoves bp' = Inr ms'" and mv: "mv' \<in> set ms'"
  from init have ne: "seqs \<noteq> []" by (auto simp: SW_init_def)
  show "predecessor_ok seqs (matrix t) (generatecoordinates mv' (counter t))"
  proof (cases "length seqs = 1 \<or> hd seqs \<noteq> []")
    case True
    from SW_init_inv [OF init True] SW_reach_inv [OF reach]
    have "SW_inv t" "sequences t = seqs" by simp_all
    with inv_predecessor_ok [OF _ run bp ms mv] show ?thesis
      by (simp add: SW_inv_def)
  next
    case False
    from SW_body_empty_first [OF init False] SW_reach_stuck [OF reach]
    have "t = t0" by simp
    moreover from SW_init_eq [OF ne, of cfg] init
    have "sequences t0 = seqs" "counter t0 = 1 # zeros (length seqs - 1)" by auto
    ultimately show ?thesis
      using basepairs_first_fails [OF ne False] bp by simp
  qed
qed


theorem predecessors_within_bounds_and_filled_witness:
  "NW_init [''A'', ''C''] default_config = Inr
     \<lparr>sequences = [''A'', ''C''], config = default_config,
      matrix = Rows [Rows [Cell (Some \<lparr>coordinate = Some [0, 0], score = 0, move = None\<rparr>), Cell None], Rows [Cell None, Cell None]],
      counter = [1, 0]\<rparr> \<and>
   NW_iter
     \<lparr>sequences = [''A'', ''C''], config = default_config,
      matrix = Rows [Rows [Cell (Some \<lparr>coordinate = Some [0, 0], score = 0, move = None\<rparr>), Cell None], Rows [Cell None, Cell None]],
      counter = [1, 0]\<rparr>
     \<lparr>sequences = [''A'', ''C''], config = default_config,
      matrix = Rows [Rows [Cell (Some \<lparr>coordinate = Some [0, 0], score = 0, move = None\<rparr>), Cell None],
        Rows [Cell (Some \<lparr>coordinate = Some [0, 0], score = - 4, move = None\<rparr>), Cell None]],
      counter = [0, 1]\<rparr> \<and>
   running [''A'', ''C''] [0, 1] = Inr True \<and>
   generatebasepairs [''A'', ''C''] [0, 1] = Inr ''_C'' \<and>
   generatemoves ''_C'' = Inr [''_C''] \<and>
   predecessor_ok [''A'', ''C'']
     (matrix \<lparr>sequences = [''A'', ''C''], config = default_config,
      matrix = Rows [Rows [Cell (Some \<lparr>coordinate = Some [0, 0], score = 0, move = None\<rparr>), Cell None],
        Rows [Cell (Some \<lparr>coordinate = Some [0, 0], score = - 4, move = None\<rparr>), Cell None]],
      counter = [0, 1]\<rparr>)
     (generatecoordinates ''_C'' [0, 1]) \<and>
   SW_init [''A'', ''C''] default_config = Inr
     \<lparr>sequences = [''A'', ''C''], config = default_config,
      matrix = Rows [Rows [Cell (Some \<lparr>coordinate = Some [0, 0], score = 0, move = None\<rparr>), Cell None], Rows [Cell None, Cell None]],
      counter = [1, 0], bestscore = 0, bestcoordinate = [0, 0]\<rparr> \<and>
   SW_iter
     \<lparr>sequences = [''A'', ''C''], config = default_config,
      matrix = Rows [Rows [Cell (Some \<lparr>coordinate = Some [0, 0], score = 0, move = None\<rparr>), Cell None], Rows [Cell None, Cell None]],
      counter = [1, 0], bestscore = 0, bestcoordinate = [0, 0]\<rparr>
     \<lparr>sequences = [''A'', ''C''], config = default_config,
      matrix = Rows [Rows [Cell (Some \<lparr>coordinate = Some [0, 0], score = 0, move = None\<rparr>), Cell None],
        Rows [Cell (Some \<lparr>coordinate = None, score = 0, move = None\<rparr>), Cell None]],
      counter = [0, 1], bestscore = 0, bestcoordinate = [0, 0]\<rparr> \<and>
   predecessor_ok [''A'', ''C'']
     (matrix \<lparr>sequences = [''A'', ''C''], config = default_config,
      matrix = Rows [Rows [Cell (Some \<lparr>coordinate = Some [0, 0], score = 0, move = None\<rparr>), Cell None],
        Rows [Cell (Some \<lparr>coordinate = None, score = 0, move = None\<rparr>), Cell None]],
      counter = [0, 1], bestscore = 0, bestcoordinate = [0, 0]\<rparr>)
     (generatecoordinates ''_C'' [0, 1])"
proof -
  let ?n0 = "\<lparr>sequences = [''A'', ''C''], config = default_config,
      matrix = Rows [Rows [Cell (Some \<lparr>coordinate = Some [0, 0], score = 0, move = None\<rparr>), Cell None], Rows [Cell None, Cell None]],
      counter = [1, 0]\<rparr>"
  let ?n1 = "\<lparr>sequences = [''A'', ''C''], config = default_config,
      matrix = Rows [Rows [Cell (Some \<lparr>coordinate = Some [0, 0], score = 0, move = None\<rparr>), Cell None],
        Rows [Cell (Some \<lparr>coordinate = Some [0, 0], score = - 4, move = None\<rparr>), Cell None]],
      counter = [0, 1]\<rparr>"
  let ?s0 = "\<lparr>sequences = [''A'', ''C''], config = default_config,
      matrix = Rows [Rows [Cell (Some \<lparr>coordinate = Some [0, 0], score = 0, move = None\<rparr>), Cell None], Rows [Cell None, Cell None]],
      counter = [1, 0], bestscore = 0, bestcoordinate = [0, 0]\<rparr>"
  let ?s1 = "\<lparr>sequences = [''A'', ''C''], config = default_config,
      matrix = Rows [Rows [Cell (Some \<lparr>coordinate = Some [0, 0], score = 0, move = None\<rparr>), Cell None],
        Rows [Cell (Some \<lparr>coordinate = None, score = 0, move = None\<rparr>), Cell None]],
      counter = [0, 1], bestscore = 0, bestcoordinate = [0, 0]\<rparr>"
  have a1: "NW_init [''A'', ''C''] default_config = Inr ?n0" by code_simp
  have a2: "NW_iter ?n0 ?n1" by code_simp
  have b1: "SW_init [''A'', ''C''] default_config = Inr ?s0" by code_simp
  have b2: "SW_iter ?s0 ?s1" by code_simp
  have a3: "NW_iter\<^sup>*\<^sup>* ?n0 ?n1" using a2 by blast
  have b3: "SW_iter\<^sup>*\<^sup>* ?s0 ?s1" using b2 by blast
  have r: "running [''A'', ''C''] [0, 1] = Inr True" by code_simp
  have g: "generatebasepairs [''A'', ''C''] [0, 1] = Inr ''_C''" by code_simp
  have m: "generatemoves ''_C'' = Inr [''_C'']" by code_simp
  from predecessors_within_bounds_and_filled
    [of "[''A'', ''C'']" default_config ?n0 ?n1 "''_C''" "[''_C'']" "''_C''"
        ?s0 ?s1 "''_C''" "[''_C'']" "''_C''"]
    a1 a3 b1 b3 r g m
  have "predecessor_ok [''A'', ''C''] (matrix ?n1) (generatecoordinates ''_C'' [0, 1])"
    and "predecessor_ok [''A'', ''C''] (matrix ?s1) (generatecoordinates ''_C'' [0, 1])"
    by simp_all
  with a1 a2 b1 b2 r g m show ?thesis by simp
qed

subsection \<open>The all-zero coordinate\<close>

lemma origin_cell_inv:
  assumes "shaped (dims (sequences s)) (matrix s)" "sequences s \<noteq> []"
    "cell_at (matrix s) (zeros (length (sequences s))) = Some (origin_score (length (sequences s)))"
  shows "origin_cell s = Inr (Cell (Some (origin_score (length (sequences s)))))"
proof -
  have "inb (dims (sequences s)) (zeros (length (sequences s)))"
    using inb_zeros [of "dims (sequences s)"] dims_pos by simp
  from cell_at_retrieve [OF assms(1) this] assms(3) show ?thesis
    by (simp add: origin_cell_def)
qed

text \<open>
  The engine built from \<^verbatim>\<open>"A"\<close> and \<^verbatim>\<open>"C"\<close> holds at the all-zero coordinate a
  \<^verbatim>\<open>Score\<close> whose predecessor is the coordinate \<open>[0, 0]\<close>, not \<^verbatim>\<open>None\<close>.
\<close>

theorem origin_cell_counterexample:
  "bindE (NW_init [''A'', ''C''] default_config) origin_cell =
     Inr (Inr (Cell (Some \<lparr>coordinate = Some [0, 0], score = 0, move = None\<rparr>)))"
  by code_simp

text \<open>
  Claim C7, as amended. At every point of the life of an engine after construction (the
  constructed state and every state reached from it by iterations of \<^verbatim>\<open>solve\<close>, so also
  the state on return), the element at the all-zero coordinate has score 0 and, as its
  predecessor, the all-zero coordinate itself: \<^verbatim>\<open>Score([0]*N, 0)\<close>. It is not "none".
\<close>

theorem origin_cell_constant:
  "(NW_init seqs cfg = Inr s0 \<and> NW_iter\<^sup>*\<^sup>* s0 s \<longrightarrow>
      origin_cell s =
        Inr (Cell (Some \<lparr>coordinate = Some (zeros (length seqs)), score = 0, move = None\<rparr>))) \<and>
   (SW_init seqs cfg = Inr t0 \<and> SW_iter\<^sup>*\<^sup>* t0 t \<longrightarrow>
      origin_cell t =
        Inr (Cell (Some \<lparr>coordinate = Some (zeros (length seqs)), score = 0, move = None\<rparr>)))"
proof (intro conjI impI; elim conjE)
  assume init: "NW_init seqs cfg = Inr s0" and reach: "NW_iter\<^sup>*\<^sup>* s0 s"
  from init have ne: "seqs \<noteq> []" by (auto simp: NW_init_def)
  have "shaped (dims (sequences s)) (matrix s) \<and> sequences s = seqs \<and>
      cell_at (matrix s) (zeros (length seqs)) = Some (origin_score (length seqs))"
  proof (cases "length seqs = 1 \<or> hd seqs \<noteq> []")
    case True
    from NW_init_inv [OF init True] have i0: "NW_inv s0" "sequences s0 = seqs"
      by simp_all
    from NW_reach_inv [OF reach i0(1)] i0(2) show ?thesis
      by (auto simp: NW_inv_def engine_inv_def)
  next
    case False
    from NW_body_empty_first [OF init False] NW_reach_stuck [OF reach]
    have "s = s0" by simp
    with NW_init_eq [OF ne, of cfg] init show ?thesis by auto
  qed
  with origin_cell_inv [of s] ne
  show "origin_cell s =
        Inr (Cell (Some \<lparr>coordinate = Some (zeros (length seqs)), score = 0, move = None\<rparr>))"
    by (auto simp: origin_score_def mkScore_def)
next
  assume init: "SW_init seqs cfg = Inr t0" and reach: "SW_iter\<^sup>*\<^sup>* t0 t"
  from init have ne: "seqs \<noteq> []" by (auto simp: SW_init_def)
  have "shaped (dims (sequences t)) (matrix t) \<and> sequences t = seqs \<and>
      cell_at (matrix t) (zeros (length seqs)) = Some (origin_score (length seqs))"
  proof (cases "length seqs = 1 \<or> hd seqs \<noteq> []")
    case True
    from SW_init_inv [OF init True] have i0: "SW_inv t0" "sequences t0 = seqs"
      by simp_all
    from SW_reach_inv [OF reach i0(1)] i0(2) show ?thesis
      by (auto simp: SW_inv_def engine_inv_def)
  next
    case False
    from SW_body_empty_first [OF init False] SW_reach_stuck [OF reach]
    have "t = t0" by simp
    with SW_init_eq [OF ne, of cfg] init show ?thesis by auto
  qed
  with origin_cell_inv [of t] ne
  show "origin_cell t =
        Inr (Cell (Some \<lparr>coordinate = Some (zeros (length seqs)), score = 0, move = None\<rparr>))"
    by (auto simp: origin_score_def mkScore_def)
qed


theorem origin_cell_constant_witness:
  "NW_init [''A'', ''C''] default_config = Inr
     \<lparr>sequences = [''A'', ''C''], config = default_config,
      matrix = Rows [Rows [Cell (Some \<lparr>coordinate = Some [0, 0], score = 0, move = None\<rparr>), Cell None], Rows [Cell None, Cell None]],
      counter = [1, 0]\<rparr> \<and>
   NW_iter
     \<lparr>sequences = [''A'', ''C''], config = default_config,
      matrix = Rows [Rows [Cell (Some \<lparr>coordinate = Some [0, 0], score = 0, move = None\<rparr>), Cell None], Rows [Cell None, Cell None]],
      counter = [1, 0]\<rparr>
     \<lparr>sequences = [''A'', ''C''], config = default_config,
      matrix = Rows [Rows [Cell (Some \<lparr>coordinate = Some [0, 0], score = 0, move = None\<rparr>), Cell None],
        Rows [Cell (Some \<lparr>coordinate = Some [0, 0], score = - 4, move = None\<rparr>), Cell None]],
      counter = [0, 1]\<rparr> \<and>
   origin_cell
     \<lparr>sequences = [''A'', ''C''], config = default_config,
      matrix = Rows [Rows [Cell (Some \<lparr>coordinate = Some [0, 0], score = 0, move = None\<rparr>), Cell None],
        Rows [Cell (Some \<lparr>coordinate = Some [0, 0], score = - 4, move = None\<rparr>), Cell None]],
      counter = [0, 1]\<rparr> =
     Inr (Cell (Some \<lparr>coordinate = Some [0, 0], score = 0, move = None\<rparr>)) \<and>
   SW_init [''A'', ''C''] default_config = Inr
     \<lparr>sequences = [''A'', ''C''], config = default_config,
      matrix = Rows [Rows [Cell (Some \<lparr>coordinate = Some [0, 0], score = 0, move = None\<rparr>), Cell None], Rows [Cell None, Cell None]],
      counter = [1, 0], bestscore = 0, bestcoordinate = [0, 0]\<rparr> \<and>
   SW_iter
     \<lparr>sequences = [''A'', ''C''], config = default_config,
      matrix = Rows [Rows [Cell (Some \<lparr>coordinate = Some [0, 0], score = 0, move = None\<rparr>), Cell None], Rows [Cell None, Cell None]],
      counter = [1, 0], bestscore = 0, bestcoordinate = [0, 0]\<rparr>
     \<lparr>sequences = [''A'', ''C''], config = default_config,
      matrix = Rows [Rows [Cell (Some \<lparr>coordinate = Some [0, 0], score = 0, move = None\<rparr>), Cell None],
        Rows [Cell (Some \<lparr>coordinate = None, score = 0, move = None\<rparr>), Cell None]],
      counter = [0, 1], bestscore = 0, bestcoordinate = [0, 0]\<rparr> \<and>
   origin_cell
     \<lparr>sequences = [''A'', ''C''], config = default_config,
      matrix = Rows [Rows [Cell (Some \<lparr>coordinate = Some [0, 0], score = 0, move = None\<rparr>), Cell None],
        Rows [Cell (Some \<lparr>coordinate = None, score = 0, move = None\<rparr>), Cell None]],
      counter = [0, 1], bestscore = 0, bestcoordinate = [0, 0]\<rparr> =
     Inr (Cell (Some \<lparr>coordinate = Some [0, 0], score = 0, move = None\<rparr>))"
proof -
  let ?n0 = "\<lparr>sequences = [''A'', ''C''], config = default_config,
      matrix = Rows [Rows [Cell (Some \<lparr>coordinate = Some [0, 0], score = 0, move = None\<rparr>), Cell None], Rows [Cell None, Cell None]],
      counter = [1, 0]\<rparr>"
  let ?n1 = "\<lparr>sequences = [''A'', ''C''], config = default_config,
      matrix = Rows [Rows [Cell (Some \<lparr>coordinate = Some [0, 0], score = 0, move = None\<rparr>), Cell None],
        Rows [Cell (Some \<lparr>coordinate = Some [0, 0], score = - 4, move = None\<rparr>), Cell None]],
      counter = [0, 1]\<rparr>"
  let ?s0 = "\<lparr>sequences = [''A'', ''C''], config = default_config,
      matrix = Rows [Rows [Cell (Some \<lparr>coordinate = Some [0, 0], score = 0, move = None\<rparr>), Cell None], Rows [Cell None, Cell None]],
      counter = [1, 0], bestscore = 0, bestcoordinate = [0, 0]\<rparr>"
  let ?s1 = "\<lparr>sequences = [''A'', ''C''], config = default_config,
      matrix = Rows [Rows [Cell (Some \<lparr>coordinate = Some [0, 0], score = 0, move = None\<rparr>), Cell None],
        Rows [Cell (Some \<lparr>coordinate = None, score = 0, move = None\<rparr>), Cell None]],
      counter = [0, 1], bestscore = 0, bestcoordinate = [0, 0]\<rparr>"
  have a1: "NW_init [''A'', ''C''] default_config = Inr ?n0" by code_simp
  have a2: "NW_iter ?n0 ?n1" by code_simp
  have b1: "SW_init [''A'', ''C''] default_config = Inr ?s0" by code_simp
  have b2: "SW_iter ?s0 ?s1" by code_simp
  have a3: "NW_iter\<^sup>*\<^sup>* ?n0 ?n1" using a2 by blast
  have b3: "SW_iter\<^sup>*\<^sup>* ?s0 ?s1" using b2 by blast
  from origin_cell_constant [of "[''A'', ''C'']" default_config ?n0 ?n1 ?s0 ?s1] a1 a3 b1 b3
  have "origin_cell ?n1 =
      Inr (Cell (Some \<lparr>coordinate = Some [0, 0], score = 0, move = None\<rparr>))"
    and "origin_cell ?s1 =
      Inr (Cell (Some \<lparr>coordinate = Some [0, 0], score = 0, move = None\<rparr>))"
    by (simp_all add: zeros_def)
  with a1 a2 b1 b2 show ?thesis by simp
qed

subsection \<open>Fewer than two sequences\<close>

text \<open>
  \<^verbatim>\<open>solve()\<close> has no test on the number of sequences: on the engine built from the single
  sequence \<^verbatim>\<open>"A"\<close> it returns normally, with the matrix filled.
\<close>

theorem solve_single_sequence_counterexample:
  "NW_run [''A''] default_config =
     Some (Inr \<lparr>sequences = [''A''], config = default_config,
       matrix = Rows [Cell (Some \<lparr>coordinate = Some [0], score = 0, move = None\<rparr>),
                      Cell (Some \<lparr>coordinate = Some [0], score = 0, move = None\<rparr>)],
       counter = [2]\<rparr>)"
  by code_simp

lemma NW_run_single: "\<exists>s. NW_run [q] cfg = Some (Inr s)"
proof -
  from NW_init_eq [of "[q]" cfg] obtain s where i: "NW_init [q] cfg = Inr s" by auto
  from NW_init_inv [OF i] have "NW_inv s" by simp
  from NW_solve_inv [OF this] i show ?thesis by (auto simp: NW_run_def)
qed

lemma SW_run_single: "\<exists>s. SW_run [q] cfg = Some (Inr s)"
proof -
  from SW_init_eq [of "[q]" cfg] obtain s where i: "SW_init [q] cfg = Inr s" by auto
  from SW_init_inv [OF i] have "SW_inv s" by simp
  from SW_solve_inv [OF this] i show ?thesis by (auto simp: SW_run_def)
qed

text \<open>
  Claim C6, as amended. With fewer than 2 sequences it is the command-line entry point
  \<^verbatim>\<open>main()\<close>, of either engine, that reports "Please give at least 2 sequences" and
  returns without constructing or solving an engine. \<^verbatim>\<open>solve()\<close> itself makes no such
  test: on an engine built from one sequence it completes and returns the filled engine.
\<close>

theorem main_rejects_fewer_than_two:
  "(length seqs \<le> 1 \<longrightarrow>
      NW_main seqs = Some (Inr ''Please give at least 2 sequences'') \<and>
      SW_main seqs = Some (Inr ''Please give at least 2 sequences'')) \<and>
   (\<exists>s. NW_run [q] cfg = Some (Inr s)) \<and> (\<exists>t. SW_run [q] cfg = Some (Inr t))"
  using NW_run_single [of q cfg] SW_run_single [of q cfg]
  by (simp add: NW_main_def SW_main_def)

theorem main_rejects_fewer_than_two_witness:
  "length [''A''] \<le> 1 \<and>
   NW_main [''A''] = Some (Inr ''Please give at least 2 sequences'') \<and>
   SW_main [''A''] = Some (Inr ''Please give at least 2 sequences'')"
  using main_rejects_fewer_than_two [of "[''A'']"] by simp

subsection \<open>The number of moves\<close>

lemma bases_Cons:
  "bases (q # qs) (u # us) = (if u = 0 then CHR ''_'' else q ! nat (u - 1)) # bases qs us"
  by (simp add: bases_def)

lemma bases_count:
  "inb (dims seqs) c \<Longrightarrow> \<forall>q \<in> set seqs. CHR ''_'' \<notin> set q \<Longrightarrow>
   length (filter (\<lambda>ch. ch \<noteq> CHR ''_'') (bases seqs c)) = length (filter (\<lambda>v. 0 < v) c)"
proof (induction seqs arbitrary: c)
  case Nil
  then show ?case by (simp add: bases_def)
next
  case (Cons q qs)
  from Cons.prems(1) obtain u us where c: "c = u # us" and u: "0 \<le> u" "u < int (length q + 1)"
    and us: "inb (dims qs) us"
    by (auto simp: inb_Cons)
  have "q ! nat (u - 1) \<noteq> CHR ''_''" if "u \<noteq> 0"
  proof -
    from that u have "nat (u - 1) < length q" by auto
    then have "q ! nat (u - 1) \<in> set q" by simp
    with Cons.prems(2) show ?thesis by auto
  qed
  with Cons.IH [OF us] Cons.prems(2) u show ?case
    by (auto simp: c bases_Cons)
qed

lemma bases_branching:
  "inb (dims seqs) c \<Longrightarrow>
   length (filter (\<lambda>ch. ch \<noteq> CHR ''_'') (bases seqs c)) =
     length (filter (\<lambda>(v, q). 0 < v \<and> q ! nat (v - 1) \<noteq> CHR ''_'') (zip c seqs))"
proof (induction seqs arbitrary: c)
  case Nil
  then show ?case by (simp add: bases_def)
next
  case (Cons q qs)
  from Cons.prems obtain u us where c: "c = u # us" and u: "0 \<le> u"
    and us: "inb (dims qs) us"
    by (auto simp: inb_Cons)
  from Cons.IH [OF us] u show ?case
    by (auto simp: c bases_Cons)
qed

lemma bases_zero:
  "inb (dims seqs) c \<Longrightarrow> i < length c \<Longrightarrow> c ! i = 0 \<Longrightarrow> bases seqs c ! i = CHR ''_''"
  using inb_length [of "dims seqs" c] by (simp add: bases_def)

lemma moves_at_inb:
  "inb (dims seqs) c \<Longrightarrow> moves_at seqs c = generatemoves (bases seqs c)"
  by (simp add: moves_at_def generatebasepairs_inb)

text \<open>
  With the sequences \<^verbatim>\<open>"_"\<close> and \<^verbatim>\<open>"A"\<close>, the coordinate \<open>[1, 1]\<close> has two dimensions
  at a positive value and one move, not three: the symbol \<^verbatim>\<open>"_"\<close> of the first sequence
  is taken for the gap character.
\<close>

theorem move_count_counterexample:
  "moves_at [''_'', ''A''] [1, 1] = Inr [''_A'']"
  by code_simp

text \<open>
  Claim C8, as amended. For one or more sequences, at every coordinate of the lattice the
  move enumeration produces exactly \<open>2 ^ k - 1\<close> moves, where \<open>k\<close> is the number of
  dimensions at a positive value whose current symbol is not the character \<^verbatim>\<open>"_"\<close>; when no
  sequence contains \<^verbatim>\<open>"_"\<close>, \<open>k\<close> is the number of dimensions at a positive value. The
  all-gap pattern is never among the moves, and a dimension at coordinate 0 is a gap in
  every move.
\<close>

theorem move_count:
  assumes "seqs \<noteq> []"
    and "list_all2 (\<lambda>v q. 0 \<le> v \<and> v \<le> int (length q)) c seqs"
  shows "\<exists>ms. moves_at seqs c = Inr ms \<and>
           length ms =
             2 ^ length (filter (\<lambda>(v, q). 0 < v \<and> q ! nat (v - 1) \<noteq> CHR ''_'') (zip c seqs)) - 1 \<and>
           ((\<forall>q \<in> set seqs. CHR ''_'' \<notin> set q) \<longrightarrow>
              length ms = 2 ^ length (filter (\<lambda>v. 0 < v) c) - 1) \<and>
           allgaps (length seqs) \<notin> set ms \<and>
           (\<forall>mv \<in> set ms. \<forall>i < length c. c ! i = 0 \<longrightarrow> mv ! i = CHR ''_'')"
proof -
  from assms(2) have inb: "inb (dims seqs) c" by (simp add: inb_bounds)
  have len: "length (bases seqs c) = length seqs" using inb by (rule bases_length)
  with assms(1) have "bases seqs c \<noteq> []" by auto
  from generatemoves_ok [OF this] obtain ms where
    ms: "generatemoves (bases seqs c) = Inr ms"
    and set: "set ms = {mv. variant (bases seqs c) mv} - {allgaps (length (bases seqs c))}"
    and n: "length ms = 2 ^ length (filter (\<lambda>ch. ch \<noteq> CHR ''_'') (bases seqs c)) - 1"
    by blast
  have m: "moves_at seqs c = Inr ms"
    using ms moves_at_inb [OF inb] by simp
  have n1: "length ms =
      2 ^ length (filter (\<lambda>(v, q). 0 < v \<and> q ! nat (v - 1) \<noteq> CHR ''_'') (zip c seqs)) - 1"
    using n bases_branching [OF inb] by simp
  have n2: "(\<forall>q \<in> set seqs. CHR ''_'' \<notin> set q) \<longrightarrow>
      length ms = 2 ^ length (filter (\<lambda>v. 0 < v) c) - 1"
    using n bases_count [OF inb] by simp
  have ag: "allgaps (length seqs) \<notin> set ms"
    using set len by simp
  have z: "\<forall>mv \<in> set ms. \<forall>i < length c. c ! i = 0 \<longrightarrow> mv ! i = CHR ''_''"
  proof (intro ballI allI impI)
    fix mv i assume that: "mv \<in> set ms" "i < length c" "c ! i = 0"
    from that(1) set have "variant (bases seqs c) mv" by simp
    then have "list_all2 (\<lambda>e b. e = b \<or> e = CHR ''_'') mv (bases seqs c)"
      by (simp add: variant_def)
    moreover have "i < length (bases seqs c)"
      using that(2) inb_length [OF inb] len by simp
    ultimately have "mv ! i = bases seqs c ! i \<or> mv ! i = CHR ''_''"
      by (simp add: list_all2_conv_all_nth)
    with bases_zero [OF inb that(2,3)] show "mv ! i = CHR ''_''" by auto
  qed
  from m n1 n2 ag z show ?thesis by blast
qed

theorem move_count_witness:
  "\<exists>ms. moves_at [''A_'', ''C''] [1, 1] = Inr ms \<and> length ms = 3"
proof -
  have "[''A_'', ''C''] \<noteq> []"
    and "list_all2 (\<lambda>v q. 0 \<le> v \<and> v \<le> int (length q)) [1, 1] [''A_'', ''C'']"
    by simp_all
  from move_count [OF this] obtain ms where
    "moves_at [''A_'', ''C''] [1, 1] = Inr ms"
    "length ms =
       2 ^ length (filter (\<lambda>(v, q). 0 < v \<and> q ! nat (v - 1) \<noteq> CHR ''_'')
                     (zip [1, 1 :: int] [''A_'', ''C''])) - 1"
    by blast
  then show ?thesis by simp
qed

subsection \<open>The result of the loop over the moves\<close>

lemma Max_insert_insert:
  "finite S \<Longrightarrow> Max (insert (a :: int) (insert ns S)) = Max (insert (max a ns) S)"
  by (cases "S = {}") (simp_all add: max.assoc)

lemma NW_moves_max:
  assumes "NW_moves cfg m cnt ms (a, b) = Inr (mx, bm)"
  shows "\<exists>cs. map (newscore cfg m cnt) ms = map Inr cs \<and> mx = Max (insert a (set cs)) \<and>
     (if mx = a then bm = b
      else \<exists>i<length ms. cs ! i = mx \<and> (\<forall>j<i. cs ! j < mx) \<and>
             bm = Some (generatecoordinates (ms ! i) cnt))"
  using assms
proof (induction ms arbitrary: a b)
  case Nil
  then show ?case by simp
next
  case (Cons mv ms)
  from Cons.prems obtain ns where ns: "newscore cfg m cnt mv = Inr ns"
    by (cases "newscore cfg m cnt mv") auto
  define a' where "a' = max a ns"
  define b' where "b' = (if ns > a then Some (generatecoordinates mv cnt) else b)"
  from Cons.prems ns have "NW_moves cfg m cnt ms (a', b') = Inr (mx, bm)"
    by (auto simp: a'_def b'_def max_def split: if_splits)
  from Cons.IH [OF this] obtain cs where
    cs: "map (newscore cfg m cnt) ms = map Inr cs"
    and mx: "mx = Max (insert a' (set cs))"
    and pr: "if mx = a' then bm = b'
      else \<exists>i<length ms. cs ! i = mx \<and> (\<forall>j<i. cs ! j < mx) \<and>
             bm = Some (generatecoordinates (ms ! i) cnt)"
    by blast
  have mx': "mx = Max (insert a (set (ns # cs)))"
    using mx Max_insert_insert [OF finite_set, of a ns cs]
    by (simp add: a'_def del: Max_insert)
  have ge: "a' \<le> mx" unfolding mx by simp
  have "if mx = a then bm = b
      else \<exists>i<length (mv # ms). (ns # cs) ! i = mx \<and> (\<forall>j<i. (ns # cs) ! j < mx) \<and>
             bm = Some (generatecoordinates ((mv # ms) ! i) cnt)"
  proof (cases "mx = a'")
    case True
    show ?thesis
    proof (cases "ns > a")
      case gt: True
      with True pr have "mx = ns" "bm = Some (generatecoordinates mv cnt)" "mx \<noteq> a"
        by (auto simp: a'_def b'_def)
      then show ?thesis by (auto intro!: exI [of _ 0])
    next
      case le: False
      with True pr show ?thesis by (auto simp: a'_def b'_def)
    qed
  next
    case False
    with pr obtain i where i: "i < length ms" "cs ! i = mx" "\<forall>j<i. cs ! j < mx"
      "bm = Some (generatecoordinates (ms ! i) cnt)"
      by auto
    from False ge have lt: "a' < mx" by simp
    then have "a < mx" "ns < mx" by (simp_all add: a'_def)
    with i have "Suc i < length (mv # ms)" "(ns # cs) ! Suc i = mx"
      "\<forall>j<Suc i. (ns # cs) ! j < mx"
      "bm = Some (generatecoordinates ((mv # ms) ! Suc i) cnt)"
      by (auto simp: less_Suc_eq_0_disj)
    with \<open>a < mx\<close> show ?thesis by (metis less_irrefl)
  qed
  with ns cs mx' show ?case
    by (intro exI [of _ "ns # cs"]) simp
qed

lemma SW_moves_best:
  assumes "SW_moves cfg m cnt ms (a, (best, bc)) = Inr (r, (best', bc'))"
  shows "\<exists>cs. map (newscore cfg m cnt) ms = map Inr cs \<and> best' = Max (insert best (set cs)) \<and>
     bc' = (if best < best' then cnt else bc)"
  using assms
proof (induction ms arbitrary: a best bc)
  case Nil
  then show ?case by simp
next
  case (Cons mv ms)
  obtain a1 a2 where a: "a = (a1, a2)" by (cases a)
  from Cons.prems obtain ns where ns: "newscore cfg m cnt mv = Inr ns"
    by (cases "newscore cfg m cnt mv") (auto simp: a)
  define q where "q = (if ns > a1 then (ns, Some (generatecoordinates mv cnt)) else (a1, a2))"
  define b1 where "b1 = max best ns"
  define c1 where "c1 = (if ns > best then cnt else bc)"
  from Cons.prems ns have "SW_moves cfg m cnt ms (q, (b1, c1)) = Inr (r, (best', bc'))"
    by (auto simp: a q_def b1_def c1_def max_def split: if_splits)
  from Cons.IH [OF this] obtain cs where
    cs: "map (newscore cfg m cnt) ms = map Inr cs"
    and mx: "best' = Max (insert b1 (set cs))"
    and pr: "bc' = (if b1 < best' then cnt else c1)"
    by blast
  have mx': "best' = Max (insert best (set (ns # cs)))"
    using mx Max_insert_insert [OF finite_set, of best ns cs]
    by (simp add: b1_def del: Max_insert)
  have ge: "b1 \<le> best'" unfolding mx by simp
  have "bc' = (if best < best' then cnt else bc)"
    using pr ge by (auto simp: b1_def c1_def max_def split: if_splits)
  with ns cs mx' show ?case
    by (intro exI [of _ "ns # cs"]) simp
qed

end
